theory Spec2Isabelle
  imports Main "HOL-Library.Word"
begin

unbundle bit_operations_syntax

section \<open>The formatting engine of lib/printfmt.c\<close>

text \<open>
  A shallow embedding of \<^verbatim>\<open>src/lib/printfmt.c\<close>.  The C scalar types are those of
  the i386 target of the kernel: \<^verbatim>\<open>int\<close>, \<^verbatim>\<open>long\<close>, \<^verbatim>\<open>unsigned\<close> and pointers are
  32-bit words, \<^verbatim>\<open>long long\<close> is a 64-bit word, plain \<^verbatim>\<open>char\<close> is signed.  All
  arithmetic is two's complement and wraps; signed comparisons are \<open><s\<close> and \<open>\<le>s\<close>.

  What C leaves undefined and what the model cannot continue from is a value of
  type \<open>error\<close>: a read outside the object a pointer points into, a variadic
  argument that is missing or of the wrong type, a division by zero, and a
  recursion that never returns.
\<close>

datatype error = ReadPastEnd | BadVaArg | DivByZero | NoReturn

text \<open>The sink: \<^verbatim>\<open>void (*putch)(int, void*)\<close> with its \<^verbatim>\<open>putdat\<close> as the state \<open>'s\<close>.\<close>

type_synonym 's putch = "32 word \<Rightarrow> 's \<Rightarrow> 's"

text \<open>
  A variadic argument, tagged with the type the caller passed; a \<^verbatim>\<open>char *\<close> is
  \<open>None\<close> (the null pointer) or the bytes from the pointer to the end of its object.
\<close>

datatype arg =
    AInt "32 word"
  | ALong "32 word"
  | ALongLong "64 word"
  | AStr "string option"
  | APtr "32 word"

abbreviation NUL :: char where
  "NUL \<equiv> CHR 0x00"

text \<open>A string literal of the C source: its characters and the terminating zero byte.\<close>

definition cstr :: "string \<Rightarrow> string" where
  "cstr s = s @ [NUL]"

text \<open>\<^verbatim>\<open>*(unsigned char *) p\<close> and \<^verbatim>\<open>*p\<close> (a plain, signed \<^verbatim>\<open>char\<close>) as an \<^verbatim>\<open>int\<close>.\<close>

definition uchar_to_int :: "char \<Rightarrow> 32 word" where
  "uchar_to_int c = of_char c"

definition char_to_int :: "char \<Rightarrow> 32 word" where
  "char_to_int c = scast (of_char c :: 8 word)"

text \<open>Reading the byte at index \<open>i\<close> of the object \<open>mem\<close>.\<close>

definition rd :: "string \<Rightarrow> nat \<Rightarrow> error + char" where
  "rd mem i = (if i < length mem then Inr (mem ! i) else Inl ReadPastEnd)"

subsection \<open>The error table\<close>

text \<open>
  \<^verbatim>\<open>MAXERROR\<close> and the \<^verbatim>\<open>E_*\<close> codes come from \<^verbatim>\<open>inc/error.h\<close>, which is not among
  the sources: they are parameters of the model.  \<open>error_string\<close> is the table
  of the source, its designated initialisers in the source's order (a later one
  overrides an earlier one at the same index); an index without an initialiser
  holds the null pointer.
\<close>

record errno =
  MAXERROR :: nat
  E_UNSPECIFIED :: nat
  E_BAD_ENV :: nat
  E_INVAL :: nat
  E_NO_MEM :: nat
  E_NO_FREE_ENV :: nat
  E_FAULT :: nat

definition error_string :: "errno \<Rightarrow> nat \<Rightarrow> string option" where
  "error_string h =
     (Map.empty
        (E_UNSPECIFIED h \<mapsto> cstr ''unspecified error'',
         E_BAD_ENV h \<mapsto> cstr ''bad environment'',
         E_INVAL h \<mapsto> cstr ''invalid parameter'',
         E_NO_MEM h \<mapsto> cstr ''out of memory'',
         E_NO_FREE_ENV h \<mapsto> cstr ''out of environments'',
         E_FAULT h \<mapsto> cstr ''segmentation fault''))"

text \<open>The codes of the kernel's \<^verbatim>\<open>inc/error.h\<close>, for concrete runs.\<close>

definition jos_errno :: errno where
  "jos_errno =
     \<lparr>MAXERROR = 7, E_UNSPECIFIED = 1, E_BAD_ENV = 2, E_INVAL = 3, E_NO_MEM = 4,
      E_NO_FREE_ENV = 5, E_FAULT = 6\<rparr>"

subsection \<open>printnum\<close>

text \<open>\<^verbatim>\<open>while (--width > 0) putch(padc, putdat);\<close>\<close>

function printnum_pad :: "'s putch \<Rightarrow> 's \<Rightarrow> 32 word \<Rightarrow> 32 word \<Rightarrow> 's" where
  "printnum_pad putch putdat width padc =
     (let width = width - 1 in
      if 0 <s width then printnum_pad putch (putch padc putdat) width padc else putdat)"
  by pat_completeness auto

lemma sless_pos_unat_pred: "0 <s (w :: 32 word) \<Longrightarrow> unat (w - 1) < unat w"
proof -
  assume "0 <s w"
  then have "w \<noteq> 0" by auto
  then have "unat (w - 1) = unat w - 1" "0 < unat w"
    by (simp_all add: unat_minus_one unat_gt_0)
  then show ?thesis by arith
qed

lemma sless_pos_unat_pred2: "0 <s (w :: 32 word) - 1 \<Longrightarrow> unat (w - 2) < unat (w - 1)"
  using sless_pos_unat_pred [of "w - 1"] by simp

termination printnum_pad
  by (relation "measure (\<lambda>(putch, putdat, width, padc). unat (width - 1))")
     (auto simp: sless_pos_unat_pred2)

declare printnum_pad.simps [simp del]

text \<open>\<^verbatim>\<open>"0123456789abcdef"[i]\<close>: the literal is an array of 17 bytes.\<close>

definition digit_at :: "64 word \<Rightarrow> error + 32 word" where
  "digit_at i =
     (case rd (cstr ''0123456789abcdef'') (unat i) of
        Inl e \<Rightarrow> Inl e
      | Inr c \<Rightarrow> Inr (char_to_int c))"

text \<open>
  \<open>printnum\<close>.  With \<open>base = 0\<close> the division traps; with \<open>base = 1\<close> and
  \<open>num \<ge> 1\<close> the recursion is on the same \<open>num\<close> and never returns.
\<close>

function printnum ::
  "'s putch \<Rightarrow> 's \<Rightarrow> 64 word \<Rightarrow> 32 word \<Rightarrow> 32 word \<Rightarrow> 32 word \<Rightarrow> error + 's" where
  "printnum putch putdat num base width padc =
     (case (if ucast base \<le> num
            then (if base = 0 then Inl DivByZero
                  else if base = 1 then Inl NoReturn
                  else printnum putch putdat (num div ucast base) base (width - 1) padc)
            else Inr (printnum_pad putch putdat width padc)) of
        Inl e \<Rightarrow> Inl e
      | Inr putdat \<Rightarrow>
          (case digit_at (num mod ucast base) of
             Inl e \<Rightarrow> Inl e
           | Inr c \<Rightarrow> Inr (putch (c OR (padc AND 0xff00)) putdat)))"
  by pat_completeness auto

lemma printnum_div_less:
  fixes num :: "64 word" and base :: "32 word"
  assumes "ucast base \<le> num" "base \<noteq> 0" "base \<noteq> 1"
  shows "unat (num div ucast base) < unat num"
proof -
  have b: "unat (ucast base :: 64 word) = unat base"
    by transfer simp
  have b2: "2 \<le> unat base"
    using assms(2,3)
    by (metis One_nat_def Suc_1 not_less_eq_eq old.nat.exhaust unsigned_1
        unsigned_eq_0_iff word_eq_iff_unsigned zero_le)
  have "unat base \<le> unat num"
    using assms(1) b by (simp add: word_le_nat_alt)
  then have "0 < unat num" using b2 by arith
  then have "unat num div unat base < unat num"
    using b2 by (simp add: div_less_dividend)
  then show ?thesis by (simp add: unat_div b)
qed

termination printnum
  by (relation "measure (\<lambda>(putch, putdat, num, base, width, padc). unat num)")
     (auto simp: printnum_div_less)

declare printnum.simps [simp del]

subsection \<open>Variadic arguments\<close>

text \<open>\<^verbatim>\<open>va_arg(ap, int)\<close>, \<^verbatim>\<open>va_arg(ap, char *)\<close> and \<^verbatim>\<open>va_arg(ap, void *)\<close>.\<close>

fun va_arg_int :: "arg list \<Rightarrow> error + (32 word \<times> arg list)" where
  "va_arg_int (AInt v # ap) = Inr (v, ap)"
| "va_arg_int _ = Inl BadVaArg"

fun va_arg_str :: "arg list \<Rightarrow> error + (string option \<times> arg list)" where
  "va_arg_str (AStr p # ap) = Inr (p, ap)"
| "va_arg_str _ = Inl BadVaArg"

fun va_arg_ptr :: "arg list \<Rightarrow> error + (32 word \<times> arg list)" where
  "va_arg_ptr (APtr v # ap) = Inr (v, ap)"
| "va_arg_ptr _ = Inl BadVaArg"

fun va_arg_long :: "arg list \<Rightarrow> error + (32 word \<times> arg list)" where
  "va_arg_long (ALong v # ap) = Inr (v, ap)"
| "va_arg_long _ = Inl BadVaArg"

fun va_arg_longlong :: "arg list \<Rightarrow> error + (64 word \<times> arg list)" where
  "va_arg_longlong (ALongLong v # ap) = Inr (v, ap)"
| "va_arg_longlong _ = Inl BadVaArg"

definition getuint :: "arg list \<Rightarrow> 32 word \<Rightarrow> error + (64 word \<times> arg list)" where
  "getuint ap lflag =
     (if 2 \<le>s lflag then va_arg_longlong ap
      else if lflag \<noteq> 0 then
        (case va_arg_long ap of Inl e \<Rightarrow> Inl e | Inr (v, ap) \<Rightarrow> Inr (ucast v, ap))
      else
        (case va_arg_int ap of Inl e \<Rightarrow> Inl e | Inr (v, ap) \<Rightarrow> Inr (ucast v, ap)))"

definition getint :: "arg list \<Rightarrow> 32 word \<Rightarrow> error + (64 word \<times> arg list)" where
  "getint ap lflag =
     (if 2 \<le>s lflag then va_arg_longlong ap
      else if lflag \<noteq> 0 then
        (case va_arg_long ap of Inl e \<Rightarrow> Inl e | Inr (v, ap) \<Rightarrow> Inr (scast v, ap))
      else
        (case va_arg_int ap of Inl e \<Rightarrow> Inl e | Inr (v, ap) \<Rightarrow> Inr (scast v, ap)))"

subsection \<open>Parsing a directive\<close>

record directive =
  padc :: char
  width :: "32 word"
  precision :: "32 word"
  lflag :: "32 word"
  altflag :: "32 word"

text \<open>The state a \<^verbatim>\<open>%\<close> starts from.\<close>

definition init_directive :: directive where
  "init_directive = \<lparr>padc = CHR '' '', width = - 1, precision = - 1, lflag = 0, altflag = 0\<rparr>"

text \<open>
  The loop of \<^verbatim>\<open>case '1' ... '9'\<close>: \<open>ch\<close> is the digit just read, \<open>pos\<close> the index
  after it; the result is the directive with the number accumulated in
  \<open>precision\<close>, and the index of the first character that is not a digit.
\<close>

function digit_run :: "string \<Rightarrow> nat \<Rightarrow> directive \<Rightarrow> 32 word \<Rightarrow> error + (directive \<times> nat)" where
  "digit_run fmt pos d ch =
     (let d = d\<lparr>precision := precision d * 10 + ch - 0x30\<rparr> in
      case rd fmt pos of
        Inl e \<Rightarrow> Inl e
      | Inr c \<Rightarrow>
          (let ch = char_to_int c in
           if ch <s 0x30 \<or> 0x39 <s ch then Inr (d, pos)
           else digit_run fmt (pos + 1) d ch))"
  by pat_completeness auto

lemma rd_Inr_less: "rd mem i = Inr c \<Longrightarrow> i < length mem"
  by (simp add: rd_def split: if_splits)

termination digit_run
  by (relation "measure (\<lambda>(fmt, pos, d, ch). length fmt - pos)")
     (auto dest: rd_Inr_less)

declare digit_run.simps [simp del]

text \<open>\<^verbatim>\<open>process_precision:\<close>\<close>

definition process_precision :: "directive \<Rightarrow> directive" where
  "process_precision d =
     (if width d <s 0 then d\<lparr>width := precision d, precision := - 1\<rparr> else d)"

text \<open>
  \<^verbatim>\<open>reswitch:\<close> the characters of a directive up to its conversion character.
  The result is the conversion character, the index after it, the directive and
  the arguments left.
\<close>

function reswitch ::
  "string \<Rightarrow> nat \<Rightarrow> directive \<Rightarrow> arg list \<Rightarrow> error + (char \<times> nat \<times> directive \<times> arg list)" where
  "reswitch fmt pos d ap =
     (case rd fmt pos of
        Inl e \<Rightarrow> Inl e
      | Inr c \<Rightarrow>
          (let pos = pos + 1 in
           if c = CHR ''-'' then reswitch fmt pos (d\<lparr>padc := CHR ''-''\<rparr>) ap
           else if c = CHR ''0'' then reswitch fmt pos (d\<lparr>padc := CHR ''0''\<rparr>) ap
           else if c \<in> set ''123456789'' then
             (case digit_run fmt pos (d\<lparr>precision := 0\<rparr>) (uchar_to_int c) of
                Inl e \<Rightarrow> Inl e
              | Inr (d, pos) \<Rightarrow> reswitch fmt pos (process_precision d) ap)
           else if c = CHR ''*'' then
             (case va_arg_int ap of
                Inl e \<Rightarrow> Inl e
              | Inr (n, ap) \<Rightarrow> reswitch fmt pos (process_precision (d\<lparr>precision := n\<rparr>)) ap)
           else if c = CHR ''.'' then
             reswitch fmt pos (if width d <s 0 then d\<lparr>width := 0\<rparr> else d) ap
           else if c = CHR ''#'' then reswitch fmt pos (d\<lparr>altflag := 1\<rparr>) ap
           else if c = CHR ''l'' then reswitch fmt pos (d\<lparr>lflag := lflag d + 1\<rparr>) ap
           else Inr (c, pos, d, ap)))"
  by pat_completeness auto

lemma digit_run_pos: "digit_run fmt pos d ch = Inr (d', pos') \<Longrightarrow> pos \<le> pos'"
proof (induction fmt pos d ch rule: digit_run.induct)
  case (1 fmt pos d ch)
  show ?case
  proof (cases "rd fmt pos")
    case (Inl e)
    with "1.prems" show ?thesis by (simp add: digit_run.simps [of fmt pos])
  next
    case (Inr c)
    show ?thesis
    proof (cases "char_to_int c <s 0x30 \<or> 0x39 <s char_to_int c")
      case True
      with Inr "1.prems" show ?thesis by (simp add: digit_run.simps [of fmt pos])
    next
      case False
      with Inr "1.prems"
      have "digit_run fmt (pos + 1) (d\<lparr>precision := precision d * 10 + ch - 0x30\<rparr>)
              (char_to_int c) = Inr (d', pos')"
        by (simp add: digit_run.simps [of fmt pos])
      with "1.IH" [OF refl Inr refl False] have "pos + 1 \<le> pos'" by simp
      then show ?thesis by simp
    qed
  qed
qed

termination reswitch
  by (relation "measure (\<lambda>(fmt, pos, d, ap). length fmt - pos)")
     (auto dest!: rd_Inr_less digit_run_pos)

declare reswitch.simps [simp del]

subsection \<open>Conversions\<close>

text \<open>\<^verbatim>\<open>for (; width > 0; width--) putch(c, putdat);\<close>\<close>

function pad_loop :: "'s putch \<Rightarrow> 's \<Rightarrow> directive \<Rightarrow> 32 word \<Rightarrow> 's \<times> directive" where
  "pad_loop putch putdat d c =
     (if 0 <s width d then pad_loop putch (putch c putdat) (d\<lparr>width := width d - 1\<rparr>) c
      else (putdat, d))"
  by pat_completeness auto

termination pad_loop
  by (relation "measure (\<lambda>(putch, putdat, d, c). unat (width d))")
     (auto simp: sless_pos_unat_pred)

declare pad_loop.simps [simp del]

text \<open>
  Modelled from the spec: \<^verbatim>\<open>strnlen\<close> (of \<^verbatim>\<open>lib/string.c\<close>, which is not among the
  sources) returns the smaller of the string's length and its second argument.
\<close>

definition strnlen :: "string \<Rightarrow> nat \<Rightarrow> nat" where
  "strnlen s n = min (length (takeWhile (\<lambda>c. c \<noteq> NUL) s)) n"

text \<open>
  The second loop of \<^verbatim>\<open>case 's'\<close>:
  \<^verbatim>\<open>for (; (ch = *p++) != '\0' && (precision < 0 || --precision >= 0); width--)\<close>
  over the bytes \<open>p\<close> points to.
\<close>

fun str_loop :: "'s putch \<Rightarrow> 's \<Rightarrow> string \<Rightarrow> directive \<Rightarrow> 32 word \<Rightarrow> error + ('s \<times> directive)" where
  "str_loop putch putdat [] d attri = Inl ReadPastEnd"
| "str_loop putch putdat (c # p) d attri =
     (let ch = char_to_int c;
          body = (\<lambda>d. if altflag d \<noteq> 0 \<and> (ch <s 0x20 \<or> 0x7e <s ch)
                       then putch (0x3f OR attri) putdat
                       else putch (ch OR attri) putdat)
      in
      if ch = 0 then Inr (putdat, d)
      else if precision d <s 0 then
        str_loop putch (body d) p (d\<lparr>width := width d - 1\<rparr>) attri
      else
        (let d = d\<lparr>precision := precision d - 1\<rparr> in
         if 0 \<le>s precision d then str_loop putch (body d) p (d\<lparr>width := width d - 1\<rparr>) attri
         else Inr (putdat, d)))"

text \<open>\<^verbatim>\<open>case 's'\<close>, after the argument has been read.\<close>

definition conv_s :: "'s putch \<Rightarrow> 's \<Rightarrow> string option \<Rightarrow> directive \<Rightarrow> 32 word \<Rightarrow> error + 's" where
  "conv_s putch putdat p0 d attri =
     (let p = (case p0 of None \<Rightarrow> cstr ''(null)'' | Some p \<Rightarrow> p);
          (putdat, d) =
             (if 0 <s width d \<and> padc d \<noteq> CHR ''-''
              then pad_loop putch putdat
                     (d\<lparr>width := width d - of_nat (strnlen p (unat (precision d)))\<rparr>)
                     (char_to_int (padc d) OR attri)
              else (putdat, d))
      in
      case str_loop putch putdat p d attri of
        Inl e \<Rightarrow> Inl e
      | Inr (putdat, d) \<Rightarrow> Inr (fst (pad_loop putch putdat d (0x20 OR attri))))"

text \<open>The inner \<^verbatim>\<open>switch\<close> of \<^verbatim>\<open>case 'B'\<close> and of \<^verbatim>\<open>case 'F'\<close>.\<close>

definition switch_B :: "char \<Rightarrow> 32 word \<Rightarrow> 32 word" where
  "switch_B c attri =
     (if c = CHR ''B'' then attri OR 0x1000
      else if c = CHR ''G'' then attri OR 0x2000
      else if c = CHR ''R'' then attri OR 0x4000
      else if c = CHR ''I'' then attri OR 0x8000
      else if c = CHR ''b'' then attri AND NOT 0x1000
      else if c = CHR ''g'' then attri AND NOT 0x2000
      else if c = CHR ''r'' then attri AND NOT 0x4000
      else if c = CHR ''i'' then attri AND NOT 0x8000
      else attri)"

definition switch_F :: "char \<Rightarrow> 32 word \<Rightarrow> 32 word" where
  "switch_F c attri =
     (if c = CHR ''B'' then attri OR 0x0100
      else if c = CHR ''G'' then attri OR 0x0200
      else if c = CHR ''R'' then attri OR 0x0400
      else if c = CHR ''I'' then attri OR 0x0800
      else if c = CHR ''b'' then attri AND NOT 0x0100
      else if c = CHR ''g'' then attri AND NOT 0x0200
      else if c = CHR ''r'' then attri AND NOT 0x0400
      else if c = CHR ''i'' then attri AND NOT 0x0800
      else attri)"

text \<open>
  The loop of the \<^verbatim>\<open>default\<close> case, \<^verbatim>\<open>for (fmt--; fmt[-1] != '%'; fmt--)\<close>, after its
  initialising \<^verbatim>\<open>fmt--\<close>: \<open>pos\<close> is the index \<open>fmt\<close> points to, and index 0 has no
  byte before it.
\<close>

fun rewind :: "string \<Rightarrow> nat \<Rightarrow> error + nat" where
  "rewind fmt 0 = Inl ReadPastEnd"
| "rewind fmt (Suc pos) =
     (case rd fmt pos of
        Inl e \<Rightarrow> Inl e
      | Inr c \<Rightarrow> if c \<noteq> CHR ''%'' then rewind fmt pos else Inr (Suc pos))"

text \<open>
  The conversion cases of the \<^verbatim>\<open>switch\<close> but \<^verbatim>\<open>case 'e'\<close>, from the conversion
  character \<open>c\<close> (\<open>pos\<close> is the index after it) to the \<^verbatim>\<open>break\<close>: the result is
  the index \<open>fmt\<close> points to, the attribute mask, the arguments left and the sink.
\<close>

definition conversion ::
  "'s putch \<Rightarrow> string \<Rightarrow> char \<Rightarrow> directive \<Rightarrow> nat \<Rightarrow> 32 word \<Rightarrow> arg list \<Rightarrow> 's \<Rightarrow>
     error + (nat \<times> 32 word \<times> arg list \<times> 's)" where
  "conversion putch fmt c d pos attri ap putdat =
     (let number = (\<lambda>putdat num base ap.
            case printnum putch putdat num base (width d) (char_to_int (padc d) OR attri) of
              Inl e \<Rightarrow> Inl e
            | Inr putdat \<Rightarrow> Inr (pos, attri, ap, putdat))
      in
      if c = CHR ''c'' then
        (case va_arg_int ap of
           Inl e \<Rightarrow> Inl e
         | Inr (v, ap) \<Rightarrow> Inr (pos, attri, ap, putch (v OR attri) putdat))
      else if c = CHR ''s'' then
        (case va_arg_str ap of
           Inl e \<Rightarrow> Inl e
         | Inr (p, ap) \<Rightarrow>
             (case conv_s putch putdat p d attri of
                Inl e \<Rightarrow> Inl e
              | Inr putdat \<Rightarrow> Inr (pos, attri, ap, putdat)))
      else if c = CHR ''d'' then
        (case getint ap (lflag d) of
           Inl e \<Rightarrow> Inl e
         | Inr (num, ap) \<Rightarrow>
             if num <s 0 then number (putch (0x2d OR attri) putdat) (- num) 10 ap
             else number putdat num 10 ap)
      else if c = CHR ''u'' then
        (case getuint ap (lflag d) of
           Inl e \<Rightarrow> Inl e
         | Inr (num, ap) \<Rightarrow> number putdat num 10 ap)
      else if c = CHR ''o'' then
        (case getuint ap (lflag d) of
           Inl e \<Rightarrow> Inl e
         | Inr (num, ap) \<Rightarrow> number putdat num 8 ap)
      else if c = CHR ''p'' then
        (case va_arg_ptr ap of
           Inl e \<Rightarrow> Inl e
         | Inr (v, ap) \<Rightarrow>
             number (putch (0x78 OR attri) (putch (0x30 OR attri) putdat)) (ucast v) 16 ap)
      else if c = CHR ''x'' then
        (case getuint ap (lflag d) of
           Inl e \<Rightarrow> Inl e
         | Inr (num, ap) \<Rightarrow> number putdat num 16 ap)
      else if c = CHR ''%'' then
        Inr (pos, attri, ap, putch (uchar_to_int c OR attri) putdat)
      else if c = CHR ''B'' then
        (case rd fmt pos of
           Inl e \<Rightarrow> Inl e
         | Inr ch \<Rightarrow>
             (case rd fmt (pos + 1) of
                Inl e \<Rightarrow> Inl e
              | Inr _ \<Rightarrow> Inr (pos + 1, switch_B ch attri, ap, putdat)))
      else if c = CHR ''F'' then
        (case rd fmt pos of
           Inl e \<Rightarrow> Inl e
         | Inr ch \<Rightarrow>
             (case rd fmt (pos + 1) of
                Inl e \<Rightarrow> Inl e
              | Inr _ \<Rightarrow> Inr (pos + 1, switch_F ch attri, ap, putdat)))
      else if c = CHR ''C'' then
        (case rd fmt pos of
           Inl e \<Rightarrow> Inl e
         | Inr _ \<Rightarrow> Inr (pos, 0, ap, putdat))
      else
        (case rewind fmt (pos - 1) of
           Inl e \<Rightarrow> Inl e
         | Inr pos \<Rightarrow> Inr (pos, attri, ap, putch (0x25 OR attri) putdat)))"

text \<open>
  The test of \<^verbatim>\<open>case 'e'\<close>, \<^verbatim>\<open>err >= MAXERROR || (p = error_string[err]) == NULL\<close>:
  \<open>None\<close> where it holds and the string \<open>p\<close> where it does not.  A negative
  \<open>err\<close> passes the first comparison and indexes the table before its start.
\<close>

definition e_lookup :: "errno \<Rightarrow> 32 word \<Rightarrow> error + string option" where
  "e_lookup h err =
     (if int (MAXERROR h) \<le> sint err then Inr None
      else if sint err < 0 then Inl ReadPastEnd
      else Inr (error_string h (nat (sint err))))"

lemma reswitch_pos:
  "reswitch fmt pos d ap = Inr (c, pos', d', ap') \<Longrightarrow> pos < pos'"
proof (induction fmt pos d ap rule: reswitch.induct)
  case (1 fmt pos d ap)
  from "1.prems" obtain ch where rd: "rd fmt pos = Inr ch"
    by (cases "rd fmt pos") (simp_all add: reswitch.simps [of fmt pos])
  note IH = "1.IH" [OF rd refl]
  consider (minus) "ch = CHR ''-''" | (zero) "ch \<noteq> CHR ''-''" "ch = CHR ''0''"
    | (digit) "ch \<noteq> CHR ''-''" "ch \<noteq> CHR ''0''" "ch \<in> set ''123456789''"
    | (star) "ch \<noteq> CHR ''-''" "ch \<noteq> CHR ''0''" "ch \<notin> set ''123456789''" "ch = CHR ''*''"
    | (dot) "ch \<noteq> CHR ''-''" "ch \<noteq> CHR ''0''" "ch \<notin> set ''123456789''" "ch \<noteq> CHR ''*''"
        "ch = CHR ''.''"
    | (hash) "ch \<noteq> CHR ''-''" "ch \<noteq> CHR ''0''" "ch \<notin> set ''123456789''" "ch \<noteq> CHR ''*''"
        "ch \<noteq> CHR ''.''" "ch = CHR ''#''"
    | (ell) "ch \<noteq> CHR ''-''" "ch \<noteq> CHR ''0''" "ch \<notin> set ''123456789''" "ch \<noteq> CHR ''*''"
        "ch \<noteq> CHR ''.''" "ch \<noteq> CHR ''#''" "ch = CHR ''l''"
    | (conv) "ch \<noteq> CHR ''-''" "ch \<noteq> CHR ''0''" "ch \<notin> set ''123456789''" "ch \<noteq> CHR ''*''"
        "ch \<noteq> CHR ''.''" "ch \<noteq> CHR ''#''" "ch \<noteq> CHR ''l''"
    by blast
  then show ?case
  proof cases
    case minus
    with "1.prems" rd IH(1) [OF minus] show ?thesis
      by (simp add: reswitch.simps [of fmt pos])
  next
    case zero
    with "1.prems" rd IH(2) [OF zero] show ?thesis
      by (simp add: reswitch.simps [of fmt pos])
  next
    case digit
    from "1.prems" rd digit obtain d1 p1 where
      dr: "digit_run fmt (pos + 1) (d\<lparr>precision := 0\<rparr>) (uchar_to_int ch) = Inr (d1, p1)"
      and rs: "reswitch fmt p1 (process_precision d1) ap = Inr (c, pos', d', ap')"
      by (cases "digit_run fmt (pos + 1) (d\<lparr>precision := 0\<rparr>) (uchar_to_int ch)")
         (auto simp: reswitch.simps [of fmt pos])
    from IH(3) [OF digit dr refl rs] digit_run_pos [OF dr] show ?thesis by simp
  next
    case star
    from "1.prems" rd star obtain n ap1 where
      va: "va_arg_int ap = Inr (n, ap1)"
      and rs: "reswitch fmt (pos + 1) (process_precision (d\<lparr>precision := n\<rparr>)) ap1
                 = Inr (c, pos', d', ap')"
      by (cases "va_arg_int ap") (auto simp: reswitch.simps [of fmt pos])
    from IH(4) [OF star va refl rs] show ?thesis by simp
  next
    case dot
    with "1.prems" rd IH(5) [OF dot] show ?thesis
      by (simp add: reswitch.simps [of fmt pos])
  next
    case hash
    with "1.prems" rd IH(6) [OF hash] show ?thesis
      by (simp add: reswitch.simps [of fmt pos])
  next
    case ell
    with "1.prems" rd IH(7) [OF ell] show ?thesis
      by (simp add: reswitch.simps [of fmt pos])
  next
    case conv
    with "1.prems" rd show ?thesis
      by (simp add: reswitch.simps [of fmt pos])
  qed
qed

subsection \<open>vprintfmt\<close>

text \<open>
  The \<^verbatim>\<open>while (1)\<close> loop of \<^verbatim>\<open>vprintfmt\<close>, one character of literal text or one
  directive at a time.  \<open>fmt\<close> is the object the format pointer points into and
  \<open>pos\<close> the pointer's index in it.  \<^verbatim>\<open>case 'e'\<close> calls \<^verbatim>\<open>printfmt\<close>, which is
  \<^verbatim>\<open>vprintfmt\<close> again, from the start of a format of its own and with a mask
  \<^verbatim>\<open>attri\<close> of its own, which starts at 0.
\<close>

function vprintfmt_loop ::
  "errno \<Rightarrow> 's putch \<Rightarrow> string \<Rightarrow> nat \<Rightarrow> 32 word \<Rightarrow> arg list \<Rightarrow> 's \<Rightarrow> error + 's" where
  "vprintfmt_loop h putch fmt pos attri ap putdat =
     (case rd fmt pos of
        Inl e \<Rightarrow> Inl e
      | Inr c \<Rightarrow>
          if c \<noteq> CHR ''%'' then
            (if c = NUL then Inr putdat
             else vprintfmt_loop h putch fmt (pos + 1) attri ap
                    (putch (uchar_to_int c OR attri) putdat))
          else
            (case reswitch fmt (pos + 1) init_directive ap of
               Inl e \<Rightarrow> Inl e
             | Inr (c, pos', d, ap) \<Rightarrow>
                 if c = CHR ''e'' then
                   (case va_arg_int ap of
                      Inl e \<Rightarrow> Inl e
                    | Inr (err, ap) \<Rightarrow>
                        (let err = (if err <s 0 then - err else err) in
                         case e_lookup h err of
                           Inl e \<Rightarrow> Inl e
                         | Inr None \<Rightarrow>
                             (case vprintfmt_loop h putch (cstr ''error %d'') 0 0 [AInt err] putdat of
                                Inl e \<Rightarrow> Inl e
                              | Inr putdat \<Rightarrow> vprintfmt_loop h putch fmt pos' attri ap putdat)
                         | Inr (Some p) \<Rightarrow>
                             (case vprintfmt_loop h putch (cstr ''%s'') 0 0 [AStr (Some p)] putdat of
                                Inl e \<Rightarrow> Inl e
                              | Inr putdat \<Rightarrow> vprintfmt_loop h putch fmt pos' attri ap putdat)))
                 else
                   (case conversion putch fmt c d pos' attri ap putdat of
                      Inl e \<Rightarrow> Inl e
                    | Inr (pos', attri, ap, putdat) \<Rightarrow>
                        vprintfmt_loop h putch fmt pos' attri ap putdat)))"
  by pat_completeness auto

lemma rewind_pos:
  "rewind fmt j = Inr k \<Longrightarrow> rd fmt p = Inr CHR ''%'' \<Longrightarrow> p < j \<Longrightarrow> p < k"
proof (induction j)
  case 0
  then show ?case by simp
next
  case (Suc j)
  show ?case
  proof (cases "p = j")
    case True
    with Suc.prems show ?thesis by simp
  next
    case False
    with Suc.prems have pj: "p < j" by simp
    from Suc.prems(1) obtain c where c: "rd fmt j = Inr c"
      by (cases "rd fmt j") simp_all
    show ?thesis
    proof (cases "c = CHR ''%''")
      case True
      with Suc.prems(1) c have "k = Suc j" by simp
      with pj show ?thesis by simp
    next
      case False
      with Suc.prems(1) c have "rewind fmt j = Inr k" by simp
      from Suc.IH [OF this Suc.prems(2) pj] show ?thesis .
    qed
  qed
qed

lemma conversion_simps:
  "conversion putch fmt CHR ''c'' d pos attri ap putdat =
     (case va_arg_int ap of
        Inl e \<Rightarrow> Inl e
      | Inr (v, ap) \<Rightarrow> Inr (pos, attri, ap, putch (v OR attri) putdat))"
  "conversion putch fmt CHR ''s'' d pos attri ap putdat =
     (case va_arg_str ap of
        Inl e \<Rightarrow> Inl e
      | Inr (p, ap) \<Rightarrow>
          (case conv_s putch putdat p d attri of
             Inl e \<Rightarrow> Inl e
           | Inr putdat \<Rightarrow> Inr (pos, attri, ap, putdat)))"
  "conversion putch fmt CHR ''d'' d pos attri ap putdat =
     (case getint ap (lflag d) of
        Inl e \<Rightarrow> Inl e
      | Inr (num, ap) \<Rightarrow>
          (if num <s 0 then
             (case printnum putch (putch (0x2d OR attri) putdat) (- num) 10 (width d)
                     (char_to_int (padc d) OR attri) of
                Inl e \<Rightarrow> Inl e
              | Inr putdat \<Rightarrow> Inr (pos, attri, ap, putdat))
           else
             (case printnum putch putdat num 10 (width d) (char_to_int (padc d) OR attri) of
                Inl e \<Rightarrow> Inl e
              | Inr putdat \<Rightarrow> Inr (pos, attri, ap, putdat))))"
  "conversion putch fmt CHR ''u'' d pos attri ap putdat =
     (case getuint ap (lflag d) of
        Inl e \<Rightarrow> Inl e
      | Inr (num, ap) \<Rightarrow>
          (case printnum putch putdat num 10 (width d) (char_to_int (padc d) OR attri) of
             Inl e \<Rightarrow> Inl e
           | Inr putdat \<Rightarrow> Inr (pos, attri, ap, putdat)))"
  "conversion putch fmt CHR ''o'' d pos attri ap putdat =
     (case getuint ap (lflag d) of
        Inl e \<Rightarrow> Inl e
      | Inr (num, ap) \<Rightarrow>
          (case printnum putch putdat num 8 (width d) (char_to_int (padc d) OR attri) of
             Inl e \<Rightarrow> Inl e
           | Inr putdat \<Rightarrow> Inr (pos, attri, ap, putdat)))"
  "conversion putch fmt CHR ''p'' d pos attri ap putdat =
     (case va_arg_ptr ap of
        Inl e \<Rightarrow> Inl e
      | Inr (v, ap) \<Rightarrow>
          (case printnum putch (putch (0x78 OR attri) (putch (0x30 OR attri) putdat)) (ucast v) 16
                  (width d) (char_to_int (padc d) OR attri) of
             Inl e \<Rightarrow> Inl e
           | Inr putdat \<Rightarrow> Inr (pos, attri, ap, putdat)))"
  "conversion putch fmt CHR ''x'' d pos attri ap putdat =
     (case getuint ap (lflag d) of
        Inl e \<Rightarrow> Inl e
      | Inr (num, ap) \<Rightarrow>
          (case printnum putch putdat num 16 (width d) (char_to_int (padc d) OR attri) of
             Inl e \<Rightarrow> Inl e
           | Inr putdat \<Rightarrow> Inr (pos, attri, ap, putdat)))"
  "conversion putch fmt CHR ''%'' d pos attri ap putdat =
     Inr (pos, attri, ap, putch (0x25 OR attri) putdat)"
  "conversion putch fmt CHR ''B'' d pos attri ap putdat =
     (case rd fmt pos of
        Inl e \<Rightarrow> Inl e
      | Inr ch \<Rightarrow>
          (case rd fmt (pos + 1) of
             Inl e \<Rightarrow> Inl e
           | Inr _ \<Rightarrow> Inr (pos + 1, switch_B ch attri, ap, putdat)))"
  "conversion putch fmt CHR ''F'' d pos attri ap putdat =
     (case rd fmt pos of
        Inl e \<Rightarrow> Inl e
      | Inr ch \<Rightarrow>
          (case rd fmt (pos + 1) of
             Inl e \<Rightarrow> Inl e
           | Inr _ \<Rightarrow> Inr (pos + 1, switch_F ch attri, ap, putdat)))"
  "conversion putch fmt CHR ''C'' d pos attri ap putdat =
     (case rd fmt pos of
        Inl e \<Rightarrow> Inl e
      | Inr _ \<Rightarrow> Inr (pos, 0, ap, putdat))"
  by (simp_all add: conversion_def uchar_to_int_def Let_def)

lemma conversion_default:
  "c \<notin> set ''csduopx%BFC'' \<Longrightarrow>
   conversion putch fmt c d pos attri ap putdat =
     (case rewind fmt (pos - 1) of
        Inl e \<Rightarrow> Inl e
      | Inr pos \<Rightarrow> Inr (pos, attri, ap, putch (0x25 OR attri) putdat))"
  by (simp add: conversion_def)

lemma conversion_known_pos:
  assumes "conversion putch fmt c d pos attri ap putdat = Inr (pos', attri', ap', putdat')"
    and "c \<in> set ''csduopx%BFC''"
  shows "pos \<le> pos'"
proof -
  from assms(2) have "c = CHR ''c'' \<or> c = CHR ''s'' \<or> c = CHR ''d'' \<or> c = CHR ''u''
      \<or> c = CHR ''o'' \<or> c = CHR ''p'' \<or> c = CHR ''x'' \<or> c = CHR ''%'' \<or> c = CHR ''B''
      \<or> c = CHR ''F'' \<or> c = CHR ''C''"
    by simp
  then show ?thesis
    using assms(1)
    by (elim disjE) (auto simp: conversion_simps split: sum.splits if_splits)
qed

lemma conversion_pos:
  assumes "conversion putch fmt c d pos attri ap putdat = Inr (pos', attri', ap', putdat')"
    and "rd fmt p = Inr CHR ''%''" and "p + 2 \<le> pos"
  shows "p < pos'"
proof (cases "c \<in> set ''csduopx%BFC''")
  case True
  from conversion_known_pos [OF assms(1) True] assms(3) show ?thesis by simp
next
  case False
  from assms(1) obtain k where "rewind fmt (pos - 1) = Inr k" "pos' = k"
    by (auto simp: conversion_default [OF False] split: sum.splits)
  with rewind_pos [of fmt "pos - 1" k p] assms(2,3) show ?thesis by simp
qed

text \<open>The formats of the calls in \<^verbatim>\<open>case 'e'\<close> hold no \<^verbatim>\<open>%e\<close>.\<close>

lemma rd_numeral_simps:
  "rd (x # xs) 0 = Inr x"
  "rd (x # xs) (Suc n) = rd xs n"
  "rd [] n = Inl ReadPastEnd"
  by (simp_all add: rd_def)

lemma inner_fmt_no_e:
  assumes "fmt = cstr ''error %d'' \<or> fmt = cstr ''%s''"
    and "rd fmt pos = Inr CHR ''%''"
    and "reswitch fmt (pos + 1) d ap = Inr (c, pos', d', ap')"
  shows "c \<noteq> CHR ''e''"
proof -
  from assms(1) show ?thesis
  proof
    assume f: "fmt = cstr ''error %d''"
    with assms(2) have "pos < 9" by (auto dest: rd_Inr_less simp: cstr_def)
    then have "pos \<in> {0, 1, 2, 3, 4, 5, 6, 7, 8}" by auto
    with assms(2) f have "pos = 6"
      by (auto simp: cstr_def rd_def)
    with assms(3) f show ?thesis
      by (auto simp: reswitch.simps [of _ 7] cstr_def rd_def)
  next
    assume f: "fmt = cstr ''%s''"
    with assms(2) have "pos < 3" by (auto dest: rd_Inr_less simp: cstr_def)
    then have "pos \<in> {0, 1, 2}" by auto
    with assms(2) f have "pos = 0"
      by (auto simp: cstr_def rd_def)
    with assms(3) f show ?thesis
      by (auto simp: reswitch.simps [of _ "Suc 0"] cstr_def rd_def)
  qed
qed

lemma outer_fmt:
  assumes "reswitch fmt (Suc pos) d ap = Inr (CHR ''e'', pos', d', ap')"
    and "rd fmt pos = Inr CHR ''%''"
  shows "fmt \<noteq> cstr ''error %d'' \<and> fmt \<noteq> cstr ''%s''"
  using inner_fmt_no_e [of fmt pos d ap "CHR ''e''" pos' d' ap'] assms by auto

termination vprintfmt_loop
proof (relation "measures
    [\<lambda>(h, putch, fmt, pos, attri, ap, putdat).
        if fmt = cstr ''error %d'' \<or> fmt = cstr ''%s'' then 0 else 1,
     \<lambda>(h, putch, fmt, pos, attri, ap, putdat). length fmt - pos]", goal_cases)
  case 1
  show ?case by simp
next
  case (2 h putch fmt pos attri ap putdat c)
  then show ?case by (auto dest: rd_Inr_less)
next
  case (3 h putch fmt pos attri ap putdat c x xa y xb ya xc yb xd xe yc xf)
  then show ?case by (auto dest: outer_fmt)
next
  case (4 h putch fmt pos attri ap putdat c x xa y xb ya xc yb xd xe yc xf xg)
  then show ?case by (auto dest!: rd_Inr_less reswitch_pos)
next
  case (5 h putch fmt pos attri ap putdat c x xa y xb ya xc yb xd xe yc xf xg)
  then show ?case by (auto dest: outer_fmt)
next
  case (6 h putch fmt pos attri ap putdat c x xa y xb ya xc yb xd xe yc xf xg xh)
  then show ?case by (auto dest!: rd_Inr_less reswitch_pos)
next
  case (7 h putch fmt pos attri ap putdat c x xa y xb ya xc yb xd xe yc xf xg)
  then show ?case
    by (auto dest!: reswitch_pos conversion_pos [where p = pos] dest: rd_Inr_less)
qed

declare vprintfmt_loop.simps [simp del]

text \<open>\<^verbatim>\<open>vprintfmt\<close> and its variadic wrapper \<^verbatim>\<open>printfmt\<close>.\<close>

definition vprintfmt :: "errno \<Rightarrow> 's putch \<Rightarrow> 's \<Rightarrow> string \<Rightarrow> arg list \<Rightarrow> error + 's" where
  "vprintfmt h putch putdat fmt ap = vprintfmt_loop h putch fmt 0 0 ap putdat"

definition printfmt :: "errno \<Rightarrow> 's putch \<Rightarrow> 's \<Rightarrow> string \<Rightarrow> arg list \<Rightarrow> error + 's" where
  "printfmt h putch putdat fmt ap = vprintfmt h putch putdat fmt ap"

subsection \<open>The bounded buffer\<close>

text \<open>
  Memory is a map from addresses to bytes; the null pointer is address 0.
  \<open>ebuf\<close> is an integer because \<^verbatim>\<open>buf+n-1\<close> is computed before \<open>n\<close> is checked.
\<close>

type_synonym memory = "nat \<Rightarrow> char"

record sprintbuf =
  buf :: nat
  ebuf :: int
  cnt :: "32 word"

definition sprintputch :: "32 word \<Rightarrow> memory \<times> sprintbuf \<Rightarrow> memory \<times> sprintbuf" where
  "sprintputch ch = (\<lambda>(m, b).
     (let b = b\<lparr>cnt := cnt b + 1\<rparr> in
      if int (buf b) < ebuf b then (m(buf b := char_of (unat ch)), b\<lparr>buf := buf b + 1\<rparr>)
      else (m, b)))"

definition vsnprintf ::
  "errno \<Rightarrow> memory \<Rightarrow> nat \<Rightarrow> 32 word \<Rightarrow> string \<Rightarrow> arg list \<Rightarrow> error + (memory \<times> 32 word)" where
  "vsnprintf h m bufp n fmt ap =
     (let b = \<lparr>buf = bufp, ebuf = int bufp + sint n - 1, cnt = 0\<rparr> in
      if bufp = 0 \<or> n <s 1 then Inr (m, - of_nat (E_INVAL h))
      else
        (case vprintfmt h sprintputch (m, b) fmt ap of
           Inl e \<Rightarrow> Inl e
         | Inr (m, b) \<Rightarrow> Inr (m(buf b := NUL), cnt b)))"

definition snprintf ::
  "errno \<Rightarrow> memory \<Rightarrow> nat \<Rightarrow> 32 word \<Rightarrow> string \<Rightarrow> arg list \<Rightarrow> error + (memory \<times> 32 word)" where
  "snprintf h m bufp n fmt ap = vsnprintf h m bufp n fmt ap"

section \<open>What the engine emits\<close>

text \<open>
  The sink that records what it is given, the digits of a number in a base, most
  significant first, their count, and the character of a digit.
\<close>

definition emit :: "32 word \<Rightarrow> 32 word list \<Rightarrow> 32 word list" where
  "emit c out = out @ [c]"

function base_digits :: "nat \<Rightarrow> nat \<Rightarrow> nat list" where
  "base_digits b n = (if b < 2 \<or> n < b then [n] else base_digits b (n div b) @ [n mod b])"
  by pat_completeness auto

termination base_digits
  by (relation "measure (\<lambda>(b, n). n)") (auto simp: div_less_dividend)

declare base_digits.simps [simp del]

definition digitCount :: "nat \<Rightarrow> nat \<Rightarrow> nat" where
  "digitCount v b = length (base_digits b v)"

definition digit_char :: "nat \<Rightarrow> 32 word" where
  "digit_char i = of_char (''0123456789abcdef'' ! i)"

lemma sint32_sub:
  fixes a b :: "32 word"
  assumes "- (2 ^ 31) \<le> sint a - sint b" "sint a - sint b < 2 ^ 31"
  shows "sint (a - b) = sint a - sint b"
  using assms by (simp add: sint_word_ariths signed_take_bit_int_eq_self)

lemma sint32_range:
  fixes a :: "32 word"
  shows "- (2 ^ 31) \<le> sint a" "sint a < 2 ^ 31"
  using sint_ge [of a] sint_lt [of a] by simp_all

lemma sint32_pred:
  fixes w :: "32 word"
  assumes "0 <s w"
  shows "sint (w - 1) = sint w - 1"
proof -
  from assms have "0 < sint w" by (simp add: word_sless_alt)
  with sint32_range [of w] show ?thesis
    using sint32_sub [of w 1] by simp
qed

lemma printnum_pad_fold:
  "printnum_pad putch putdat w pc = fold putch (replicate (nat (sint (w - 1))) pc) putdat"
proof (induction putch putdat w pc rule: printnum_pad.induct)
  case (1 putch putdat w pc)
  show ?case
  proof (cases "0 <s w - 1")
    case True
    then have p: "0 < sint (w - 1)" by (simp add: word_sless_alt)
    from sint32_pred [OF True] have "sint (w - 1 - 1) = sint (w - 1) - 1" .
    with p have "nat (sint (w - 1)) = Suc (nat (sint (w - 1 - 1)))" by simp
    with True "1.IH" [OF refl True] show ?thesis
      by (simp add: printnum_pad.simps [of putch putdat w])
  next
    case False
    then have "sint (w - 1) \<le> 0" by (simp add: word_sless_alt)
    with False show ?thesis
      by (simp add: printnum_pad.simps [of putch putdat w])
  qed
qed

lemma digit_at_less16:
  assumes "unat i < 16"
  shows "digit_at i = Inr (digit_char (unat i))"
proof -
  from assms have "unat i \<in> {0, 1, 2, 3, 4, 5, 6, 7, 8, 9, 10, 11, 12, 13, 14, 15}"
    by simp arith
  then have "char_to_int (''0123456789abcdef'' ! unat i) = digit_char (unat i)"
    by (auto simp: char_to_int_def digit_char_def)
  moreover have "length (cstr ''0123456789abcdef'') = 17"
    by (simp add: cstr_def)
  moreover have "cstr ''0123456789abcdef'' ! unat i = ''0123456789abcdef'' ! unat i"
    unfolding cstr_def using assms by (subst nth_append) simp
  ultimately show ?thesis
    using assms by (simp add: digit_at_def rd_def)
qed

lemma unat_ucast_32_64: "unat (ucast (b :: 32 word) :: 64 word) = unat b"
  by transfer simp

lemma base_digits_step:
  "2 \<le> b \<Longrightarrow> b \<le> n \<Longrightarrow> base_digits b n = base_digits b (n div b) @ [n mod b]"
  by (simp add: base_digits.simps [of b n])

lemma base_digits_small: "n < b \<Longrightarrow> base_digits b n = [n]"
  by (simp add: base_digits.simps [of b n])

lemma printnum_fold:
  assumes "2 \<le> unat base" "unat base \<le> 16"
  shows "printnum putch putdat num base w pc =
     Inr (fold putch
            (replicate (nat (sint (w - of_nat (digitCount (unat num) (unat base))))) pc @
             map (\<lambda>d. digit_char d OR (pc AND 0xff00)) (base_digits (unat base) (unat num)))
            putdat)"
  using assms
proof (induction putch putdat num base w pc rule: printnum.induct)
  case (1 putch putdat num base w pc)
  let ?b = "unat base" and ?n = "unat num"
  have le_iff: "ucast base \<le> num \<longleftrightarrow> ?b \<le> ?n"
    by (simp add: word_le_nat_alt unat_ucast_32_64)
  have "unat (num mod ucast base) = ?n mod ?b"
    by (simp add: unat_mod unat_ucast_32_64)
  moreover have "?n mod ?b < 16"
  proof -
    from "1.prems" have "0 < ?b" by simp
    then have "?n mod ?b < ?b" by (rule mod_less_divisor)
    with "1.prems"(2) show ?thesis by arith
  qed
  ultimately have dg: "digit_at (num mod ucast base) = Inr (digit_char (?n mod ?b))"
    using digit_at_less16 [of "num mod ucast base"] by simp
  show ?case
  proof (cases "?b \<le> ?n")
    case True
    from "1.prems" have nz: "base \<noteq> 0" "base \<noteq> 1" by auto
    have dv: "unat (num div ucast base) = ?n div ?b"
      by (simp add: unat_div unat_ucast_32_64)
    from True le_iff have c: "ucast base \<le> num" by simp
    have bd: "base_digits ?b ?n = base_digits ?b (?n div ?b) @ [?n mod ?b]"
      using base_digits_step [OF "1.prems"(1) True] .
    then have dc: "digitCount ?n ?b = Suc (digitCount (?n div ?b) ?b)"
      by (simp add: digitCount_def)
    have ww: "w - 1 - of_nat (digitCount (?n div ?b) ?b) = w - of_nat (digitCount ?n ?b)"
      by (simp add: dc)
    from "1.IH" [OF c nz "1.prems"] dv ww
    have "printnum putch putdat (num div ucast base) base (w - 1) pc =
        Inr (fold putch
            (replicate (nat (sint (w - of_nat (digitCount ?n ?b)))) pc @
             map (\<lambda>d. digit_char d OR (pc AND 0xff00)) (base_digits ?b (?n div ?b)))
            putdat)"
      by simp
    with c nz dg bd show ?thesis
      by (simp add: printnum.simps [of putch putdat num base w pc])
  next
    case False
    then have lt: "?n < ?b" by simp
    with le_iff have c: "\<not> ucast base \<le> num" by simp
    from lt have "base_digits ?b ?n = [?n]" "digitCount ?n ?b = 1" "?n mod ?b = ?n"
      by (simp_all add: base_digits_small digitCount_def)
    with c dg show ?thesis
      by (simp add: printnum.simps [of putch putdat num base w pc] printnum_pad_fold)
  qed
qed

lemma fold_emit: "fold emit xs acc = acc @ xs"
  by (induction xs arbitrary: acc) (simp_all add: emit_def)

lemma base_digits_value: "2 \<le> b \<Longrightarrow> foldl (\<lambda>a d. a * b + d) 0 (base_digits b n) = n"
proof (induction b n rule: base_digits.induct)
  case (1 b n)
  show ?case
  proof (cases "n < b")
    case True
    then show ?thesis by (simp add: base_digits_small)
  next
    case False
    with "1.prems" "1.IH" have "foldl (\<lambda>a d. a * b + d) 0 (base_digits b (n div b)) = n div b"
      by simp
    with False "1.prems" show ?thesis
      by (simp add: base_digits_step)
  qed
qed

lemma base_digits_bound: "2 \<le> b \<Longrightarrow> d \<in> set (base_digits b n) \<Longrightarrow> d < b"
proof (induction b n rule: base_digits.induct)
  case (1 b n)
  show ?case
  proof (cases "n < b")
    case True
    with "1.prems" show ?thesis by (simp add: base_digits_small)
  next
    case False
    with "1.prems" "1.IH" show ?thesis
      by (auto simp: base_digits_step)
  qed
qed

lemma base_digits_leading: "2 \<le> b \<Longrightarrow> 0 < n \<Longrightarrow> hd (base_digits b n) \<noteq> 0"
proof (induction b n rule: base_digits.induct)
  case (1 b n)
  show ?case
  proof (cases "n < b")
    case True
    with "1.prems" show ?thesis by (simp add: base_digits_small)
  next
    case False
    with "1.prems" have "0 < n div b"
      by (simp add: div_greater_zero_iff)
    with False "1.prems" "1.IH" have "hd (base_digits b (n div b)) \<noteq> 0" by simp
    moreover have "base_digits b (n div b) \<noteq> []"
      by (simp add: base_digits.simps [of b "n div b"])
    ultimately show ?thesis
      using False "1.prems" by (simp add: base_digits_step)
  qed
qed


lemma base_digits_length:
  "2 \<le> b \<Longrightarrow> n < 2 ^ k \<Longrightarrow> 0 < k \<Longrightarrow> length (base_digits b n) \<le> k"
proof (induction b n arbitrary: k rule: base_digits.induct)
  case (1 b n)
  show ?case
  proof (cases "n < b")
    case True
    with "1.prems" show ?thesis by (simp add: base_digits_small)
  next
    case False
    with "1.prems" have "2 \<le> n" by simp
    with "1.prems"(2) have k2: "2 \<le> k"
      by (cases k; cases "k - 1") auto
    then obtain j where k: "k = Suc j" and j: "0 < j" by (cases k) auto
    have "n div b \<le> n div 2" using "1.prems"(1) by (simp add: div_le_mono2)
    also have "n div 2 < 2 ^ j" using "1.prems"(2) k by auto
    finally have "n div b < 2 ^ j" .
    with False "1.prems" "1.IH" [of j] j have "length (base_digits b (n div b)) \<le> j" by simp
    with False "1.prems" k show ?thesis by (simp add: base_digits_step)
  qed
qed

lemma digitCount_bounds:
  fixes v :: "64 word"
  assumes "2 \<le> b"
  shows "0 < digitCount (unat v) b" "digitCount (unat v) b \<le> 64"
proof -
  show "0 < digitCount (unat v) b"
    by (simp add: digitCount_def base_digits.simps [of b "unat v"])
  have "unat v < 2 ^ 64" using unsigned_less [of v] by simp
  from base_digits_length [OF assms this] show "digitCount (unat v) b \<le> 64"
    by (simp add: digitCount_def)
qed

lemma sint32_of_nat: "n < 2 ^ 31 \<Longrightarrow> sint (of_nat n :: 32 word) = int n"
  by (simp add: signed_of_nat signed_take_bit_int_eq_self)

lemma sint32_sub_of_nat:
  fixes w :: "32 word"
  assumes "n \<le> 64" "- (2 ^ 31) \<le> sint w - int n"
  shows "sint (w - of_nat n) = sint w - int n"
proof -
  from assms(1) have n: "sint (of_nat n :: 32 word) = int n" by (simp add: sint32_of_nat)
  from sint32_range [of w] assms show ?thesis
    using sint32_sub [of w "of_nat n"] by (simp add: n)
qed

text \<open>
  C1 (amended).  For every base in {8, 10, 16}, every 64-bit value \<open>v\<close> and every
  width \<open>w\<close> for which \<open>w\<close> minus the digit count is still an \<^verbatim>\<open>int\<close> (at least
  \<open>-2^31\<close>), \<open>printnum\<close> gives the sink, in this order, \<open>max (w - digitCount) 0\<close>
  copies of the pad character and then the digits of \<open>v\<close> in that base, most
  significant first, each the character of \<^verbatim>\<open>"0123456789abcdef"\<close> at the digit's
  index with the attribute byte of the pad character: \<open>max w digitCount\<close> characters
  in all, never fewer than the digits.  The digit list has the value \<open>v\<close>, and the
  digit list of 0 is the single digit 0, whose character is \<^verbatim>\<open>'0'\<close>.
\<close>

theorem printnum_output:
  fixes v :: "64 word" and w pc base :: "32 word"
  assumes "base \<in> {8, 10, 16}"
    and "- (2 ^ 31) \<le> sint w - int (digitCount (unat v) (unat base))"
  shows "printnum putch putdat v base w pc =
           Inr (fold putch
                  (replicate (nat (max (sint w - int (digitCount (unat v) (unat base))) 0)) pc @
                   map (\<lambda>d. digit_char d OR (pc AND 0xff00)) (base_digits (unat base) (unat v)))
                  putdat)
         \<and> length (replicate (nat (max (sint w - int (digitCount (unat v) (unat base))) 0)) pc @
                   map (\<lambda>d. digit_char d OR (pc AND 0xff00)) (base_digits (unat base) (unat v)))
             = nat (max (sint w) (int (digitCount (unat v) (unat base))))
         \<and> foldl (\<lambda>a d. a * unat base + d) 0 (base_digits (unat base) (unat v)) = unat v
         \<and> base_digits (unat base) 0 = [0] \<and> digit_char 0 = 0x30"
proof -
  let ?dc = "digitCount (unat v) (unat base)"
  from assms(1) have b: "2 \<le> unat base" "unat base \<le> 16" by auto
  note dc = digitCount_bounds [OF b(1), of v]
  from sint32_sub_of_nat [OF dc(2) assms(2)]
  have "nat (sint (w - of_nat ?dc)) = nat (max (sint w - int ?dc) 0)" by simp
  with printnum_fold [OF b, of putch putdat v w pc]
  have "printnum putch putdat v base w pc =
           Inr (fold putch
                  (replicate (nat (max (sint w - int ?dc) 0)) pc @
                   map (\<lambda>d. digit_char d OR (pc AND 0xff00)) (base_digits (unat base) (unat v)))
                  putdat)"
    by simp
  moreover have "length (replicate (nat (max (sint w - int ?dc) 0)) pc @
                   map (\<lambda>d. digit_char d OR (pc AND 0xff00)) (base_digits (unat base) (unat v)))
             = nat (max (sint w) (int ?dc))"
    using dc(1) by (simp add: digitCount_def [symmetric])
  moreover have "foldl (\<lambda>a d. a * unat base + d) 0 (base_digits (unat base) (unat v)) = unat v"
    using b(1) by (rule base_digits_value)
  moreover have "base_digits (unat base) 0 = [0]"
    using b(1) by (simp add: base_digits_small)
  moreover have "digit_char 0 = 0x30"
    by (simp add: digit_char_def)
  ultimately show ?thesis by blast
qed

text \<open>A run of C1: 42 in base 10 and width 5.\<close>

theorem printnum_output_witness:
  "printnum emit [] 42 10 5 0x20 = Inr [0x20, 0x20, 0x20, 0x34, 0x32]"
proof -
  have d: "base_digits 10 42 = [4, 2]"
    by (simp add: base_digits.simps [of 10 42] base_digits.simps [of 10 4])
  have "(10 :: 32 word) \<in> {8, 10, 16}" by simp
  moreover have "- (2 ^ 31) \<le> sint (5 :: 32 word) - int (digitCount (unat (42 :: 64 word)) (unat (10 :: 32 word)))"
    by (simp add: digitCount_def d)
  ultimately show ?thesis
    using printnum_output [of 10 5 42 emit "[]" "0x20"]
    by (simp add: digitCount_def d emit_def digit_char_def numeral_3_eq_3)
qed

text \<open>
  C1 as stated fails at the width \<open>-2^31\<close>: \<^verbatim>\<open>--width\<close> wraps to \<open>2^31 - 1\<close>, and the
  value 0 is rendered with \<open>2^31 - 1\<close> pad characters before its digit, \<open>2^31\<close>
  characters where \<open>max w digitCount\<close> is 1.
\<close>

theorem printnum_output_counterexample:
  "map_sum id length (printnum emit [] 0 10 (- 2147483648) 0x20) = Inr 2147483648
   \<and> max (sint (- 2147483648 :: 32 word)) (int (digitCount (unat (0 :: 64 word)) (unat (10 :: 32 word)))) = 1"
proof -
  have d: "base_digits 10 0 = [0]" by (simp add: base_digits_small)
  have "printnum emit [] 0 10 (- 2147483648) 0x20 =
      Inr (fold emit (replicate (nat (sint (- 2147483648 - of_nat (digitCount (unat (0 :: 64 word)) (unat (10 :: 32 word))) :: 32 word))) 0x20 @
             map (\<lambda>d. digit_char d OR (0x20 AND 0xff00)) (base_digits (unat (10 :: 32 word)) (unat (0 :: 64 word)))) [])"
    by (rule printnum_fold) simp_all
  then have "printnum emit [] 0 10 (- 2147483648) 0x20 =
      Inr (replicate (nat (sint (- 2147483648 - of_nat (digitCount (unat (0 :: 64 word)) (unat (10 :: 32 word))) :: 32 word))) 0x20 @
             map (\<lambda>d. digit_char d OR (0x20 AND 0xff00)) (base_digits (unat (10 :: 32 word)) (unat (0 :: 64 word))))"
    unfolding fold_emit append_Nil .
  then show ?thesis
    by (simp add: digitCount_def d)
qed

text \<open>
  C2 (a defect of the code).  After \<^verbatim>\<open>%B\<close> the code steps over the next byte
  whatever it is.  With the format \<^verbatim>\<open>"%B"\<close> that byte is the terminating zero:
  the next read is one byte past it, outside the format's object; and when the
  bytes \<^verbatim>\<open>"XY"\<close> lie behind the terminator in the same object, they are read and
  printed as if they were format text.  \<^verbatim>\<open>%F\<close> does the same.
\<close>

theorem vprintfmt_reads_past_terminator:
  "vprintfmt jos_errno emit [] (cstr ''%B'') [] = Inl ReadPastEnd
   \<and> vprintfmt jos_errno emit [] (cstr ''%B'' @ cstr ''XY'') [] = Inr [0x58, 0x59]
   \<and> vprintfmt jos_errno emit [] (cstr ''%F'') [] = Inl ReadPastEnd
   \<and> vprintfmt jos_errno emit [] (cstr ''%F'' @ cstr ''XY'') [] = Inr [0x58, 0x59]"
  by code_simp

text \<open>
  C3 (a defect of the code).  \<^verbatim>\<open>case 'e'\<close> prints through \<^verbatim>\<open>printfmt\<close>, whose mask
  starts at 0: with the background-red bit set by \<^verbatim>\<open>%BR\<close>, the \<^verbatim>\<open>a\<close> before and the
  \<^verbatim>\<open>b\<close> after \<^verbatim>\<open>%e\<close> carry \<open>0x4000\<close>, the text of the error does not.
\<close>

theorem vprintfmt_e_drops_attri:
  "vprintfmt jos_errno emit [] (cstr ''%BRa%eb'') [AInt 3] =
     Inr ([0x4061] @ map of_char ''invalid parameter'' @ [0x4062])
   \<and> vprintfmt jos_errno emit [] (cstr ''%BRa%eb'') [AInt 999] =
     Inr ([0x4061] @ map of_char ''error 999'' @ [0x4062])"
  by code_simp

text \<open>
  C7 (a defect of the code).  The negation of the code \<open>-2^31\<close> wraps to \<open>-2^31\<close>,
  which is below \<^verbatim>\<open>MAXERROR\<close>: the table is read at a negative index, before its
  start, where the claim has the text \<^verbatim>\<open>error 2147483648\<close>.
\<close>

theorem vprintfmt_e_int_min:
  "vprintfmt jos_errno emit [] (cstr ''%e'') [AInt (- 2147483648)] = Inl ReadPastEnd"
  by code_simp

lemma vprintfmt_e_examples:
  "vprintfmt jos_errno emit [] (cstr ''%e'') [AInt 3] = Inr (map of_char ''invalid parameter'')"
  "vprintfmt jos_errno emit [] (cstr ''%e'') [AInt (- 3)] = Inr (map of_char ''invalid parameter'')"
  "vprintfmt jos_errno emit [] (cstr ''%e'') [AInt 999] = Inr (map of_char ''error 999'')"
  "vprintfmt jos_errno emit [] (cstr ''%e'') [AInt 0] = Inr (map of_char ''error 0'')"
  by code_simp+

lemma padc_attr_byte:
  fixes attri :: "32 word"
  assumes "c \<in> {CHR '' '', CHR ''0'', CHR ''-''}"
  shows "(char_to_int c OR attri) AND 0xff00 = attri AND 0xff00"
  using assms by (auto simp: char_to_int_def bit.conj_disj_distrib2)

lemma base_digits_llong_min:
  "base_digits 10 9223372036854775808 = [9, 2, 2, 3, 3, 7, 2, 0, 3, 6, 8, 5, 4, 7, 7, 5, 8, 0, 8]"
  by (simp add: base_digits.simps)

text \<open>\<open>printnum\<close> on \<open>2^63\<close> in base 10, at every width and with every pad character.\<close>

lemma printnum_two_to_63:
  "printnum putch putdat 9223372036854775808 10 w pc =
     Inr (fold putch
            (replicate (nat (sint (w - 19))) pc @
             map (\<lambda>c. of_char c OR (pc AND 0xff00)) ''9223372036854775808'')
            putdat)"
proof -
  have dc: "digitCount 9223372036854775808 10 = 19"
    by (simp add: digitCount_def base_digits_llong_min)
  have "printnum putch putdat 9223372036854775808 10 w pc =
      Inr (fold putch
            (replicate (nat (sint (w - of_nat (digitCount (unat (9223372036854775808 :: 64 word)) (unat (10 :: 32 word)))))) pc @
             map (\<lambda>d. digit_char d OR (pc AND 0xff00))
               (base_digits (unat (10 :: 32 word)) (unat (9223372036854775808 :: 64 word))))
            putdat)"
    by (rule printnum_fold) simp_all
  then show ?thesis
    by (simp add: dc base_digits_llong_min digit_char_def del: fold_replicate fold_append)
qed

text \<open>
  C10 (amended).  \<^verbatim>\<open>case 'd'\<close> with a length-modifier count of at least 2 and the
  argument \<open>-2^63\<close>, at every width, pad character and mask: the value is
  negative, so \<^verbatim>\<open>'-'\<close> is emitted; the negation wraps to \<open>2^63\<close>, and \<open>printnum\<close>
  emits the pad character \<open>width - 19\<close> times (as an \<^verbatim>\<open>int\<close>; not at all when that
  is not positive) and then the 19 digits of \<open>2^63\<close>.  With a width that does
  not wrap this is \<open>max (width - 19) 0\<close> pad characters, none for a width that is
  unset or at most 19; with a pad character the parser sets, the digits carry
  the mask.  The argument is \<open>-2^63\<close> as a signed value, and its negation is
  \<open>2^63\<close> as an unsigned one.
\<close>

theorem conversion_d_most_negative:
  assumes "2 \<le>s lflag d"
  shows "conversion putch fmt CHR ''d'' d pos attri (ALongLong (- 9223372036854775808) # ap) putdat =
           Inr (pos, attri, ap,
                fold putch
                  ((0x2d OR attri) #
                   replicate (nat (sint (width d - 19))) (char_to_int (padc d) OR attri) @
                   map (\<lambda>c. of_char c OR ((char_to_int (padc d) OR attri) AND 0xff00))
                     ''9223372036854775808'')
                  putdat)
         \<and> (- 2147483629 \<le> sint (width d) \<longrightarrow>
              nat (sint (width d - 19)) = nat (max (sint (width d) - 19) 0))
         \<and> (padc d \<in> {CHR '' '', CHR ''0'', CHR ''-''} \<longrightarrow>
              (char_to_int (padc d) OR attri) AND 0xff00 = attri AND 0xff00)
         \<and> sint (- 9223372036854775808 :: 64 word) = - 9223372036854775808
         \<and> unat (- (- 9223372036854775808 :: 64 word)) = 9223372036854775808"
proof -
  let ?pc = "char_to_int (padc d) OR attri"
  have neg: "(- 9223372036854775808 :: 64 word) <s 0"
    by (simp add: word_sless_alt)
  have "conversion putch fmt CHR ''d'' d pos attri (ALongLong (- 9223372036854775808) # ap) putdat =
      (case printnum putch (putch (0x2d OR attri) putdat) 9223372036854775808 10 (width d) ?pc of
         Inl e \<Rightarrow> Inl e
       | Inr putdat \<Rightarrow> Inr (pos, attri, ap, putdat))"
    using assms neg by (simp add: conversion_simps getint_def)
  then have 1: "conversion putch fmt CHR ''d'' d pos attri (ALongLong (- 9223372036854775808) # ap) putdat =
      Inr (pos, attri, ap,
           fold putch
             ((0x2d OR attri) #
              replicate (nat (sint (width d - 19))) ?pc @
              map (\<lambda>c. of_char c OR (?pc AND 0xff00)) ''9223372036854775808'')
             putdat)"
    unfolding printnum_two_to_63 by simp
  have 2: "nat (sint (width d - 19)) = nat (max (sint (width d) - 19) 0)"
    if "- 2147483629 \<le> sint (width d)"
  proof -
    from that have "sint (width d - of_nat 19) = sint (width d) - int 19"
      by (intro sint32_sub_of_nat) simp_all
    then show ?thesis by simp
  qed
  have 3: "?pc AND 0xff00 = attri AND 0xff00" if "padc d \<in> {CHR '' '', CHR ''0'', CHR ''-''}"
    using that by (rule padc_attr_byte)
  have 4: "sint (- 9223372036854775808 :: 64 word) = - 9223372036854775808"
    "unat (- (- 9223372036854775808 :: 64 word)) = 9223372036854775808"
    by simp_all
  from 1 2 3 4 show ?thesis by blast
qed

text \<open>
  A run of C10: the directive of \<^verbatim>\<open>%lld\<close>, whose width is unset, renders
  \<^verbatim>\<open>-9223372036854775808\<close>; so does the whole format.
\<close>

theorem conversion_d_most_negative_witness:
  "conversion emit (cstr ''%lld'') CHR ''d'' (init_directive\<lparr>lflag := 2\<rparr>) 4 0
      [ALongLong (- 9223372036854775808)] [] =
     Inr (4, 0, [], map of_char ''-9223372036854775808'')"
proof -
  let ?d = "init_directive\<lparr>lflag := 2\<rparr>"
  have l: "2 \<le>s lflag ?d" by (simp add: init_directive_def)
  have w: "- 2147483629 \<le> sint (width ?d)" by (simp add: init_directive_def)
  note t = conversion_d_most_negative [OF l, of emit "cstr ''%lld''" 4 0 "[]" "[]"]
  from t w have "nat (sint (width ?d - 19)) = nat (max (sint (width ?d) - 19) 0)" by blast
  then have "nat (sint (width ?d - 19)) = 0" by (simp add: init_directive_def)
  with t show ?thesis by (simp add: emit_def init_directive_def char_to_int_def)
qed

lemma vprintfmt_lld_most_negative:
  "vprintfmt jos_errno emit [] (cstr ''%lld'') [ALongLong (- 9223372036854775808)] =
     Inr (map of_char ''-9223372036854775808'')"
  by code_simp

text \<open>
  C10 as stated fails where the width exceeds 19: the format \<^verbatim>\<open>%20lld\<close> puts a
  pad character between the sign and the digits.
\<close>

theorem conversion_d_most_negative_counterexample:
  "vprintfmt jos_errno emit [] (cstr ''%20lld'') [ALongLong (- 9223372036854775808)] =
     Inr (map of_char ''- 9223372036854775808'')
   \<and> vprintfmt jos_errno emit [] (cstr ''%20lld'') [ALongLong (- 9223372036854775808)] \<noteq>
     Inr (map of_char ''-9223372036854775808'')"
proof -
  have "vprintfmt jos_errno emit [] (cstr ''%20lld'') [ALongLong (- 9223372036854775808)] =
     Inr (map of_char ''- 9223372036854775808'')"
    by code_simp
  then show ?thesis by simp
qed

subsection \<open>The characters of a directive\<close>

lemma sint8_uint: "sint (w :: 8 word) = (uint w + 128) mod 256 - 128"
  by (simp add: sint_uint signed_take_bit_eq_take_bit_shift take_bit_eq_mod)

lemma uint_of_char8: "uint (of_char c :: 8 word) = int (of_char c :: nat)"
proof -
  have "(of_char c :: 8 word) = of_nat (of_char c :: nat)" by (simp add: of_nat_of_char)
  then have "uint (of_char c :: 8 word) = uint (of_nat (of_char c :: nat) :: 8 word)" by simp
  also have "\<dots> = int (of_char c :: nat)"
    by (simp add: uint_nat unsigned_of_nat take_bit_nat_eq_self del: of_nat_of_char)
  finally show ?thesis .
qed

lemma sint_char_to_int:
  "sint (char_to_int c) = (int (of_char c :: nat) + 128) mod 256 - 128"
  by (simp add: char_to_int_def sint_up_scast is_up sint8_uint uint_of_char8)

lemma signed_byte:
  fixes n :: nat
  assumes "n < 256"
  shows "(int n + 128) mod 256 - 128 = (if n < 128 then int n else int n - 256)"
proof (cases "n < 128")
  case True
  then have "(int n + 128) mod 256 = int n + 128" by simp
  with True show ?thesis by simp
next
  case False
  have e: "int n + 128 = int n - 128 + 256" by simp
  have "(int n - 128 + 256) mod 256 = (int n - 128) mod 256" by (rule mod_add_self2)
  also have "\<dots> = int n - 128" using False assms by simp
  finally have "(int n + 128) mod 256 = int n - 128" unfolding e .
  with False show ?thesis by simp
qed

lemma char_eq_nat: "c = d \<longleftrightarrow> (of_char c :: nat) = of_char d"
  by simp

lemma digit_char_nat:
  "c \<in> set ''0123456789'' \<longleftrightarrow> 48 \<le> (of_char c :: nat) \<and> (of_char c :: nat) \<le> 57"
proof -
  have "c \<in> set ''0123456789'' \<longleftrightarrow>
      (of_char c :: nat) \<in> {48, 49, 50, 51, 52, 53, 54, 55, 56, 57}"
    by (simp add: char_eq_nat [of c])
  also have "\<dots> \<longleftrightarrow> 48 \<le> (of_char c :: nat) \<and> (of_char c :: nat) \<le> 57"
    by (simp del: of_char_eq_iff) arith
  finally show ?thesis .
qed

lemma sint_char_to_int_if:
  "sint (char_to_int c) =
     (if (of_char c :: nat) < 128 then int (of_char c :: nat) else int (of_char c :: nat) - 256)"
  using signed_byte [of "of_char c"] by (simp add: sint_char_to_int)

lemma signed_byte_digit:
  fixes n :: nat
  assumes "n < 256"
  shows "\<not> ((if n < 128 then int n else int n - 256) < 48
            \<or> 57 < (if n < 128 then int n else int n - 256))
         \<longleftrightarrow> 48 \<le> n \<and> n \<le> 57"
  using assms by (cases "n < 128") auto

lemma char_to_int_digit_iff:
  "\<not> (char_to_int c <s 0x30 \<or> 0x39 <s char_to_int c) \<longleftrightarrow> c \<in> set ''0123456789''"
proof -
  have "(of_char c :: nat) < 256" by simp
  from signed_byte_digit [OF this] show ?thesis
    unfolding digit_char_nat word_sless_alt sint_char_to_int_if by simp
qed

lemma rd_append_offset: "rd (pre @ xs) (length pre + k) = rd xs k"
  by (simp add: rd_def nth_append)

lemma rd_append_0: "rd (pre @ x # xs) (length pre) = Inr x"
  by (simp add: rd_def nth_append)

lemma rd_Cons_simps:
  "rd (x # xs) 0 = Inr x"
  "rd (x # xs) (Suc k) = rd xs k"
  "rd [] k = Inl ReadPastEnd"
  by (simp_all add: rd_def)

lemma digit_char_to_int: "y \<in> set ''0123456789'' \<Longrightarrow> char_to_int y = of_char y"
  by (auto simp: char_to_int_def)

text \<open>The number a digit run stands for, as the \<^verbatim>\<open>int\<close> the code accumulates.\<close>

definition dec32 :: "string \<Rightarrow> 32 word" where
  "dec32 ds = foldl (\<lambda>a c. a * 10 + of_char c - 0x30) 0 ds"

lemma digit_run_digits:
  assumes "set ds \<subseteq> set ''0123456789''" and "c \<notin> set ''0123456789''"
  shows "digit_run (pre @ ds @ c # rest) (length pre) d ch =
     Inr (d\<lparr>precision := foldl (\<lambda>a c. a * 10 + of_char c - 0x30)
                             (precision d * 10 + ch - 0x30) ds\<rparr>,
          length pre + length ds)"
  using assms(1)
proof (induction ds arbitrary: pre d ch)
  case Nil
  from assms(2) have "char_to_int c <s 0x30 \<or> 0x39 <s char_to_int c"
    using char_to_int_digit_iff [of c] by blast
  then show ?case
    by (simp add: digit_run.simps [of _ "length pre"] rd_append_0)
next
  case (Cons x xs)
  then have x: "x \<in> set ''0123456789''" and xs: "set xs \<subseteq> set ''0123456789''"
    by simp_all
  from x have nd: "\<not> (char_to_int x <s 0x30 \<or> 0x39 <s char_to_int x)"
    using char_to_int_digit_iff [of x] by blast
  have fmt: "pre @ (x # xs) @ c # rest = (pre @ [x]) @ xs @ c # rest" by simp
  have "digit_run (pre @ (x # xs) @ c # rest) (length pre) d ch =
      digit_run ((pre @ [x]) @ xs @ c # rest) (length (pre @ [x]))
        (d\<lparr>precision := precision d * 10 + ch - 0x30\<rparr>) (char_to_int x)"
    using nd by (subst digit_run.simps) (simp add: rd_append_0)
  also note Cons.IH [OF xs, of "pre @ [x]"]
  finally show ?case
    by (simp add: digit_char_to_int [OF x])
qed

lemma reswitch_digits:
  assumes "x \<in> set ''123456789''" and "set ds \<subseteq> set ''0123456789''"
    and "c \<notin> set ''0123456789''"
  shows "reswitch (pre @ x # ds @ c # rest) (length pre) d ap =
     reswitch (pre @ x # ds @ c # rest) (length pre + 1 + length ds)
       (process_precision (d\<lparr>precision := dec32 (x # ds)\<rparr>)) ap"
proof -
  from assms(1) have x: "x \<noteq> CHR ''-''" "x \<noteq> CHR ''0''" by auto
  have fmt: "pre @ x # ds @ c # rest = (pre @ [x]) @ ds @ c # rest" by simp
  have "digit_run (pre @ x # ds @ c # rest) (length pre + 1) (d\<lparr>precision := 0\<rparr>) (uchar_to_int x) =
      Inr (d\<lparr>precision := dec32 (x # ds)\<rparr>, length pre + 1 + length ds)"
    unfolding fmt using digit_run_digits [OF assms(2,3), of "pre @ [x]" rest "d\<lparr>precision := 0\<rparr>"]
    by (simp add: dec32_def uchar_to_int_def)
  with x assms(1) show ?thesis
    by (subst reswitch.simps) (simp add: rd_append_0 del: set_simps)
qed

lemma reswitch_star:
  "rd fmt pos = Inr CHR ''*'' \<Longrightarrow>
   reswitch fmt pos d (AInt n # ap) =
     reswitch fmt (pos + 1) (process_precision (d\<lparr>precision := n\<rparr>)) ap"
  by (subst reswitch.simps) simp

lemma reswitch_dot:
  "rd fmt pos = Inr CHR ''.'' \<Longrightarrow>
   reswitch fmt pos d ap = reswitch fmt (pos + 1) (if width d <s 0 then d\<lparr>width := 0\<rparr> else d) ap"
  by (subst reswitch.simps) simp

lemma reswitch_conv:
  "rd fmt pos = Inr c \<Longrightarrow> c \<notin> set ''-0123456789*.#l'' \<Longrightarrow>
   reswitch fmt pos d ap = Inr (c, pos + 1, d, ap)"
  by (subst reswitch.simps) simp

lemma rd_Cons_numeral:
  "rd (x # xs) (numeral k) = rd xs (pred_numeral k)"
  "rd (x # xs) 1 = rd xs 0"
  by (simp_all add: rd_def numeral_eq_Suc)

text \<open>A directive is read the same wherever it stands: nothing before it is looked at.\<close>

lemma digit_run_shift:
  "digit_run (pre @ fmt) (length pre + pos) d ch =
     (case digit_run fmt pos d ch of
        Inl e \<Rightarrow> Inl e | Inr (d, p) \<Rightarrow> Inr (d, length pre + p))"
proof (induction fmt pos d ch rule: digit_run.induct)
  case (1 fmt pos d ch)
  show ?case
  proof (cases "rd fmt pos")
    case (Inl e)
    then show ?thesis
      by (simp add: digit_run.simps [of _ "length pre + pos"] digit_run.simps [of fmt pos]
          rd_append_offset)
  next
    case (Inr c)
    show ?thesis
    proof (cases "char_to_int c <s 0x30 \<or> 0x39 <s char_to_int c")
      case True
      with Inr show ?thesis
        by (simp add: digit_run.simps [of _ "length pre + pos"] digit_run.simps [of fmt pos]
            rd_append_offset)
    next
      case False
      from "1.IH" [OF refl Inr refl False]
      have "digit_run (pre @ fmt) (length pre + (pos + 1))
              (d\<lparr>precision := precision d * 10 + ch - 0x30\<rparr>) (char_to_int c) =
            (case digit_run fmt (pos + 1) (d\<lparr>precision := precision d * 10 + ch - 0x30\<rparr>)
                 (char_to_int c) of
               Inl e \<Rightarrow> Inl e | Inr (d, p) \<Rightarrow> Inr (d, length pre + p))" .
      with Inr False show ?thesis
        by (simp add: digit_run.simps [of _ "length pre + pos"] digit_run.simps [of fmt pos]
            rd_append_offset)
    qed
  qed
qed

lemma reswitch_shift:
  "reswitch (pre @ fmt) (length pre + pos) d ap =
     (case reswitch fmt pos d ap of
        Inl e \<Rightarrow> Inl e | Inr (c, p, d, ap) \<Rightarrow> Inr (c, length pre + p, d, ap))"
proof (induction fmt pos d ap rule: reswitch.induct)
  case (1 fmt pos d ap)
  note unf = reswitch.simps [of "pre @ fmt" "length pre + pos"] reswitch.simps [of fmt pos]
  show ?case
  proof (cases "rd fmt pos")
    case (Inl e)
    then show ?thesis by (simp add: unf rd_append_offset)
  next
    case (Inr ch)
    note IH = "1.IH" [OF Inr refl]
    have rdp: "rd (pre @ fmt) (length pre + pos) = Inr ch"
      by (simp add: rd_append_offset Inr)
    consider (minus) "ch = CHR ''-''" | (zero) "ch \<noteq> CHR ''-''" "ch = CHR ''0''"
      | (digit) "ch \<noteq> CHR ''-''" "ch \<noteq> CHR ''0''" "ch \<in> set ''123456789''"
      | (star) "ch \<noteq> CHR ''-''" "ch \<noteq> CHR ''0''" "ch \<notin> set ''123456789''" "ch = CHR ''*''"
      | (dot) "ch \<noteq> CHR ''-''" "ch \<noteq> CHR ''0''" "ch \<notin> set ''123456789''" "ch \<noteq> CHR ''*''"
          "ch = CHR ''.''"
      | (hash) "ch \<noteq> CHR ''-''" "ch \<noteq> CHR ''0''" "ch \<notin> set ''123456789''" "ch \<noteq> CHR ''*''"
          "ch \<noteq> CHR ''.''" "ch = CHR ''#''"
      | (ell) "ch \<noteq> CHR ''-''" "ch \<noteq> CHR ''0''" "ch \<notin> set ''123456789''" "ch \<noteq> CHR ''*''"
          "ch \<noteq> CHR ''.''" "ch \<noteq> CHR ''#''" "ch = CHR ''l''"
      | (conv) "ch \<noteq> CHR ''-''" "ch \<noteq> CHR ''0''" "ch \<notin> set ''123456789''" "ch \<noteq> CHR ''*''"
          "ch \<noteq> CHR ''.''" "ch \<noteq> CHR ''#''" "ch \<noteq> CHR ''l''"
      by blast
    then show ?thesis
    proof cases
      case minus
      with IH(1) [OF minus] Inr rdp show ?thesis by (simp add: unf)
    next
      case zero
      with IH(2) [OF zero] Inr rdp show ?thesis by (simp add: unf)
    next
      case digit
      have dr: "digit_run (pre @ fmt) (length pre + (pos + 1)) (d\<lparr>precision := 0\<rparr>) (uchar_to_int ch) =
          (case digit_run fmt (pos + 1) (d\<lparr>precision := 0\<rparr>) (uchar_to_int ch) of
             Inl e \<Rightarrow> Inl e | Inr (d, p) \<Rightarrow> Inr (d, length pre + p))"
        by (rule digit_run_shift)
      show ?thesis
      proof (cases "digit_run fmt (pos + 1) (d\<lparr>precision := 0\<rparr>) (uchar_to_int ch)")
        case (Inl e)
        with dr digit Inr rdp show ?thesis by (simp add: unf del: set_simps)
      next
        case (Inr r)
        obtain d1 p1 where r: "r = (d1, p1)" by (cases r)
        from IH(3) [OF digit Inr [unfolded r] refl]
        have "reswitch (pre @ fmt) (length pre + p1) (process_precision d1) ap =
            (case reswitch fmt p1 (process_precision d1) ap of
               Inl e \<Rightarrow> Inl e | Inr (c, p, d, ap) \<Rightarrow> Inr (c, length pre + p, d, ap))" .
        with dr digit Inr r \<open>rd fmt pos = Inr ch\<close> rdp show ?thesis
          by (simp add: unf del: set_simps)
      qed
    next
      case star
      show ?thesis
      proof (cases "va_arg_int ap")
        case (Inl e)
        with star Inr rdp show ?thesis by (simp add: unf del: set_simps)
      next
        case va: (Inr r)
        obtain n ap1 where r: "r = (n, ap1)" by (cases r)
        from IH(4) [OF star va [unfolded r] refl] star Inr rdp va r show ?thesis
          by (simp add: unf del: set_simps)
      qed
    next
      case dot
      with IH(5) [OF dot] Inr rdp show ?thesis by (simp add: unf del: set_simps)
    next
      case hash
      with IH(6) [OF hash] Inr rdp show ?thesis by (simp add: unf del: set_simps)
    next
      case ell
      with IH(7) [OF ell] Inr rdp show ?thesis by (simp add: unf del: set_simps)
    next
      case conv
      with Inr rdp show ?thesis by (simp add: unf del: set_simps)
    qed
  qed
qed

text \<open>
  C4 (amended).  In a directive, the integer argument of \<^verbatim>\<open>*\<close> and the value of a
  digit run (a digit 1-9 and the digits after it, up to the first character that
  is not a digit) go to \<open>width\<close> if \<open>width\<close> is negative, with \<open>precision\<close> reset
  to -1, and to \<open>precision\<close> otherwise; \<^verbatim>\<open>.\<close> sets \<open>width\<close> to 0 if \<open>width\<close> is
  negative and changes nothing otherwise.  So wherever they stand in a format
  string, \<^verbatim>\<open>%5.2s\<close> is read as width 5 and precision 2, and \<^verbatim>\<open>%.5d\<close> as width 0
  and precision 5.
\<close>

theorem directive_width_precision:
  "(rd fmt pos = Inr CHR ''*'' \<longrightarrow>
      reswitch fmt pos d (AInt n # ap) =
        reswitch fmt (pos + 1)
          (if width d <s 0 then d\<lparr>width := n, precision := - 1\<rparr> else d\<lparr>precision := n\<rparr>) ap)
   \<and> (x \<in> set ''123456789'' \<and> set ds \<subseteq> set ''0123456789'' \<and> c \<notin> set ''0123456789'' \<longrightarrow>
      reswitch (pre @ x # ds @ c # rest) (length pre) d ap =
        reswitch (pre @ x # ds @ c # rest) (length pre + 1 + length ds)
          (if width d <s 0 then d\<lparr>width := dec32 (x # ds), precision := - 1\<rparr>
           else d\<lparr>precision := dec32 (x # ds)\<rparr>) ap)
   \<and> (rd fmt pos = Inr CHR ''.'' \<longrightarrow>
      reswitch fmt pos d ap =
        reswitch fmt (pos + 1) (if width d <s 0 then d\<lparr>width := 0\<rparr> else d) ap)
   \<and> reswitch (pre @ ''%5.2s'' @ rest) (length pre + 1) init_directive ap =
        Inr (CHR ''s'', length pre + 5, init_directive\<lparr>width := 5, precision := 2\<rparr>, ap)
   \<and> reswitch (pre @ ''%.5d'' @ rest) (length pre + 1) init_directive ap =
        Inr (CHR ''d'', length pre + 4, init_directive\<lparr>width := 0, precision := 5\<rparr>, ap)"
proof (intro conjI impI)
  assume "rd fmt pos = Inr CHR ''*''"
  from reswitch_star [OF this]
  show "reswitch fmt pos d (AInt n # ap) =
        reswitch fmt (pos + 1)
          (if width d <s 0 then d\<lparr>width := n, precision := - 1\<rparr> else d\<lparr>precision := n\<rparr>) ap"
    by (simp add: process_precision_def)
next
  assume "x \<in> set ''123456789'' \<and> set ds \<subseteq> set ''0123456789'' \<and> c \<notin> set ''0123456789''"
  then have "x \<in> set ''123456789''" "set ds \<subseteq> set ''0123456789''" "c \<notin> set ''0123456789''"
    by blast+
  from reswitch_digits [OF this]
  show "reswitch (pre @ x # ds @ c # rest) (length pre) d ap =
        reswitch (pre @ x # ds @ c # rest) (length pre + 1 + length ds)
          (if width d <s 0 then d\<lparr>width := dec32 (x # ds), precision := - 1\<rparr>
           else d\<lparr>precision := dec32 (x # ds)\<rparr>) ap"
    by (simp add: process_precision_def)
next
  assume "rd fmt pos = Inr CHR ''.''"
  from reswitch_dot [OF this]
  show "reswitch fmt pos d ap =
        reswitch fmt (pos + 1) (if width d <s 0 then d\<lparr>width := 0\<rparr> else d) ap" .
next
  have "reswitch (''%5.2s'' @ rest) 1 init_directive ap =
        Inr (CHR ''s'', 5, init_directive\<lparr>width := 5, precision := 2\<rparr>, ap)"
    by (simp add: reswitch.simps digit_run.simps rd_Cons_simps rd_Cons_numeral
        process_precision_def init_directive_def uchar_to_int_def char_to_int_def word_sless_alt)
  with reswitch_shift [of pre "''%5.2s'' @ rest" 1 init_directive ap]
  show "reswitch (pre @ ''%5.2s'' @ rest) (length pre + 1) init_directive ap =
      Inr (CHR ''s'', length pre + 5, init_directive\<lparr>width := 5, precision := 2\<rparr>, ap)"
    by simp
next
  have "reswitch (''%.5d'' @ rest) 1 init_directive ap =
        Inr (CHR ''d'', 4, init_directive\<lparr>width := 0, precision := 5\<rparr>, ap)"
    by (simp add: reswitch.simps digit_run.simps rd_Cons_simps rd_Cons_numeral
        process_precision_def init_directive_def uchar_to_int_def char_to_int_def word_sless_alt)
  with reswitch_shift [of pre "''%.5d'' @ rest" 1 init_directive ap]
  show "reswitch (pre @ ''%.5d'' @ rest) (length pre + 1) init_directive ap =
      Inr (CHR ''d'', length pre + 4, init_directive\<lparr>width := 0, precision := 5\<rparr>, ap)"
    by simp
qed

text \<open>
  Runs of C4 in the format \<^verbatim>\<open>%*.25d\<close>: the argument 7 of \<^verbatim>\<open>*\<close> goes to the unset
  width, \<^verbatim>\<open>.\<close> then leaves the width alone, and the digit run 25 goes to the
  precision.
\<close>

theorem directive_width_precision_witness:
  "reswitch (cstr ''%*.25d'') 1 init_directive [AInt 7] =
     reswitch (cstr ''%*.25d'') 2 (init_directive\<lparr>width := 7\<rparr>) []
   \<and> reswitch (cstr ''%*.25d'') 2 (init_directive\<lparr>width := 7\<rparr>) [] =
     reswitch (cstr ''%*.25d'') 3 (init_directive\<lparr>width := 7\<rparr>) []
   \<and> reswitch (cstr ''%*.25d'') 3 (init_directive\<lparr>width := 7\<rparr>) [] =
     reswitch (cstr ''%*.25d'') 5 (init_directive\<lparr>width := 7, precision := 25\<rparr>) []"
proof -
  note dwp = directive_width_precision
  have star: "rd (cstr ''%*.25d'') 1 = Inr CHR ''*''"
    and dot: "rd (cstr ''%*.25d'') 2 = Inr CHR ''.''"
    by (simp_all add: cstr_def rd_def)
  have fmt: "cstr ''%*.25d'' = ''%*.'' @ CHR ''2'' # ''5'' @ CHR ''d'' # [NUL]"
    by (simp add: cstr_def)
  have dig: "CHR ''2'' \<in> set ''123456789'' \<and> set ''5'' \<subseteq> set ''0123456789''
      \<and> CHR ''d'' \<notin> set ''0123456789''"
    by simp
  from dwp [where fmt = "cstr ''%*.25d''" and pos = 1 and d = init_directive and n = 7
      and ap = "[]", THEN conjunct1] star
  have 1: "reswitch (cstr ''%*.25d'') 1 init_directive [AInt 7] =
     reswitch (cstr ''%*.25d'') 2 (init_directive\<lparr>width := 7\<rparr>) []"
    by (simp add: init_directive_def eval_nat_numeral word_sless_alt)
  from dwp [where fmt = "cstr ''%*.25d''" and pos = 2 and d = "init_directive\<lparr>width := 7\<rparr>"
      and ap = "[]", THEN conjunct2, THEN conjunct2, THEN conjunct1] dot
  have 2: "reswitch (cstr ''%*.25d'') 2 (init_directive\<lparr>width := 7\<rparr>) [] =
     reswitch (cstr ''%*.25d'') 3 (init_directive\<lparr>width := 7\<rparr>) []"
    by (simp add: init_directive_def eval_nat_numeral word_sless_alt)
  from dwp [where d = "init_directive\<lparr>width := 7\<rparr>" and ap = "[]" and x = "CHR ''2''"
      and ds = "''5''" and c = "CHR ''d''" and pre = "''%*.''" and rest = "[NUL]",
      THEN conjunct2, THEN conjunct1] dig
  have 3: "reswitch (cstr ''%*.25d'') 3 (init_directive\<lparr>width := 7\<rparr>) [] =
     reswitch (cstr ''%*.25d'') 5 (init_directive\<lparr>width := 7, precision := 25\<rparr>) []"
    unfolding fmt by (simp add: init_directive_def dec32_def eval_nat_numeral word_sless_alt)
  from 1 2 3 show ?thesis by blast
qed

text \<open>
  C4 as stated fails in the format \<^verbatim>\<open>%*5d\<close> with the argument -7 for \<^verbatim>\<open>*\<close>.  The
  width is then -7: set, and not -1.  By the claim the digit run 5 goes to the
  precision; the code tests \<^verbatim>\<open>width < 0\<close> and moves it to the width.
\<close>

theorem directive_width_precision_counterexample:
  "reswitch (cstr ''%*5d'') 1 init_directive [AInt (- 7)] =
     reswitch (cstr ''%*5d'') 2 (init_directive\<lparr>width := - 7\<rparr>) []
   \<and> reswitch (cstr ''%*5d'') 2 (init_directive\<lparr>width := - 7\<rparr>) [] =
     Inr (CHR ''d'', 4, init_directive\<lparr>width := 5, precision := - 1\<rparr>, [])
   \<and> width (init_directive\<lparr>width := - 7\<rparr>) \<noteq> - 1"
proof -
  have ev: "reswitch (cstr ''%*5d'') 2 (init_directive\<lparr>width := - 7\<rparr>) [] =
     Inr (CHR ''d'', 4, init_directive\<lparr>width := 5, precision := - 1\<rparr>, [])"
    by (simp add: reswitch.simps digit_run.simps rd_Cons_simps rd_Cons_numeral cstr_def
        process_precision_def init_directive_def uchar_to_int_def char_to_int_def word_sless_alt)
  have "rd (cstr ''%*5d'') 1 = Inr CHR ''*''" by (simp add: cstr_def rd_def)
  from reswitch_star [OF this, of init_directive "- 7" "[]"]
  have "reswitch (cstr ''%*5d'') 1 init_directive [AInt (- 7)] =
     reswitch (cstr ''%*5d'') 2 (init_directive\<lparr>width := - 7\<rparr>) []"
    by (simp add: process_precision_def init_directive_def word_sless_alt eval_nat_numeral)
  with ev show ?thesis by (simp add: init_directive_def)
qed

subsection \<open>Directives that are not recognised\<close>

lemma rd_Inr_nth: "rd fmt i = Inr c \<Longrightarrow> i < length fmt \<and> fmt ! i = c"
  by (simp add: rd_def split: if_splits)

lemma digit_run_consumed:
  "digit_run fmt pos d ch = Inr (d', pos') \<Longrightarrow>
   pos \<le> pos' \<and> pos' < length fmt \<and> (\<forall>i. pos \<le> i \<and> i < pos' \<longrightarrow> fmt ! i \<in> set ''0123456789'')"
proof (induction fmt pos d ch rule: digit_run.induct)
  case (1 fmt pos d ch)
  from "1.prems" obtain c where rd: "rd fmt pos = Inr c"
    by (cases "rd fmt pos") (simp_all add: digit_run.simps [of fmt pos])
  show ?case
  proof (cases "char_to_int c <s 0x30 \<or> 0x39 <s char_to_int c")
    case True
    with rd "1.prems" have "pos' = pos" by (simp add: digit_run.simps [of fmt pos])
    with rd_Inr_nth [OF rd] show ?thesis by (auto simp del: set_simps)
  next
    case False
    with rd "1.prems"
    have "digit_run fmt (pos + 1) (d\<lparr>precision := precision d * 10 + ch - 0x30\<rparr>)
            (char_to_int c) = Inr (d', pos')"
      by (simp add: digit_run.simps [of fmt pos])
    from "1.IH" [OF refl rd refl False this]
    have IH: "pos + 1 \<le> pos'" "pos' < length fmt"
      "\<forall>i. pos + 1 \<le> i \<and> i < pos' \<longrightarrow> fmt ! i \<in> set ''0123456789''"
      by blast+
    from False have "c \<in> set ''0123456789''"
      using char_to_int_digit_iff [of c] by blast
    with rd_Inr_nth [OF rd] have here: "fmt ! pos \<in> set ''0123456789''" by simp
    have "fmt ! i \<in> set ''0123456789''" if "pos \<le> i" "i < pos'" for i
    proof (cases "i = pos")
      case True
      with here show ?thesis by simp
    next
      case False
      with that IH(3) show ?thesis by simp
    qed
    with IH(1,2) show ?thesis by (simp del: set_simps)
  qed
qed

lemma reswitch_consumed:
  "reswitch fmt pos d ap = Inr (c, pos', d', ap') \<Longrightarrow>
   pos < pos' \<and> pos' \<le> length fmt \<and> fmt ! (pos' - 1) = c \<and> c \<notin> set ''-0123456789*.#l''
   \<and> (\<forall>i. pos \<le> i \<and> i < pos' - 1 \<longrightarrow> fmt ! i \<in> set ''-0123456789*.#l'')"
proof (induction fmt pos d ap rule: reswitch.induct)
  case (1 fmt pos d ap)
  let ?M = "set ''-0123456789*.#l''"
  from "1.prems" obtain ch where rd: "rd fmt pos = Inr ch"
    by (cases "rd fmt pos") (simp_all add: reswitch.simps [of fmt pos])
  note IH = "1.IH" [OF rd refl]
  note unf = reswitch.simps [of fmt pos]
  from rd_Inr_nth [OF rd] have here: "pos < length fmt" "fmt ! pos = ch" by simp_all
  have step: ?case
    if r: "reswitch fmt (pos + 1) d1 ap1 = Inr (c, pos', d', ap')"
      and ih: "reswitch fmt (pos + 1) d1 ap1 = Inr (c, pos', d', ap') \<Longrightarrow>
        pos + 1 < pos' \<and> pos' \<le> length fmt \<and> fmt ! (pos' - 1) = c \<and> c \<notin> ?M
        \<and> (\<forall>i. pos + 1 \<le> i \<and> i < pos' - 1 \<longrightarrow> fmt ! i \<in> ?M)"
      and m: "ch \<in> ?M"
    for d1 ap1
  proof -
    from ih [OF r] have a: "pos + 1 < pos'" "pos' \<le> length fmt" "fmt ! (pos' - 1) = c" "c \<notin> ?M"
      and b: "\<forall>i. pos + 1 \<le> i \<and> i < pos' - 1 \<longrightarrow> fmt ! i \<in> ?M"
      by blast+
    have "fmt ! i \<in> ?M" if "pos \<le> i" "i < pos' - 1" for i
    proof (cases "i = pos")
      case True
      with here m show ?thesis by simp
    next
      case False
      with that b show ?thesis by simp
    qed
    with a show ?thesis by (simp del: set_simps)
  qed
  consider (minus) "ch = CHR ''-''" | (zero) "ch \<noteq> CHR ''-''" "ch = CHR ''0''"
    | (digit) "ch \<noteq> CHR ''-''" "ch \<noteq> CHR ''0''" "ch \<in> set ''123456789''"
    | (star) "ch \<noteq> CHR ''-''" "ch \<noteq> CHR ''0''" "ch \<notin> set ''123456789''" "ch = CHR ''*''"
    | (dot) "ch \<noteq> CHR ''-''" "ch \<noteq> CHR ''0''" "ch \<notin> set ''123456789''" "ch \<noteq> CHR ''*''"
        "ch = CHR ''.''"
    | (hash) "ch \<noteq> CHR ''-''" "ch \<noteq> CHR ''0''" "ch \<notin> set ''123456789''" "ch \<noteq> CHR ''*''"
        "ch \<noteq> CHR ''.''" "ch = CHR ''#''"
    | (ell) "ch \<noteq> CHR ''-''" "ch \<noteq> CHR ''0''" "ch \<notin> set ''123456789''" "ch \<noteq> CHR ''*''"
        "ch \<noteq> CHR ''.''" "ch \<noteq> CHR ''#''" "ch = CHR ''l''"
    | (conv) "ch \<noteq> CHR ''-''" "ch \<noteq> CHR ''0''" "ch \<notin> set ''123456789''" "ch \<noteq> CHR ''*''"
        "ch \<noteq> CHR ''.''" "ch \<noteq> CHR ''#''" "ch \<noteq> CHR ''l''"
    by blast
  then show ?case
  proof cases
    case minus
    with "1.prems" rd have "reswitch fmt (pos + 1) (d\<lparr>padc := CHR ''-''\<rparr>) ap = Inr (c, pos', d', ap')"
      by (simp add: unf)
    from step [OF this IH(1) [OF minus]] minus show ?thesis by simp
  next
    case zero
    with "1.prems" rd have "reswitch fmt (pos + 1) (d\<lparr>padc := CHR ''0''\<rparr>) ap = Inr (c, pos', d', ap')"
      by (simp add: unf)
    from step [OF this IH(2) [OF zero]] zero show ?thesis by simp
  next
    case digit
    from "1.prems" rd digit obtain d1 p1 where
      dr: "digit_run fmt (pos + 1) (d\<lparr>precision := 0\<rparr>) (uchar_to_int ch) = Inr (d1, p1)"
      and rs: "reswitch fmt p1 (process_precision d1) ap = Inr (c, pos', d', ap')"
      by (cases "digit_run fmt (pos + 1) (d\<lparr>precision := 0\<rparr>) (uchar_to_int ch)")
         (auto simp: unf simp del: set_simps)
    from IH(3) [OF digit dr refl rs]
    have a: "p1 < pos'" "pos' \<le> length fmt" "fmt ! (pos' - 1) = c" "c \<notin> ?M"
      and b: "\<forall>i. p1 \<le> i \<and> i < pos' - 1 \<longrightarrow> fmt ! i \<in> ?M"
      by blast+
    from digit_run_consumed [OF dr]
    have c1: "pos + 1 \<le> p1" and c2: "\<forall>i. pos + 1 \<le> i \<and> i < p1 \<longrightarrow> fmt ! i \<in> set ''0123456789''"
      by blast+
    have sub: "set ''0123456789'' \<subseteq> ?M" "set ''123456789'' \<subseteq> ?M" by auto
    have "fmt ! i \<in> ?M" if "pos \<le> i" "i < pos' - 1" for i
    proof -
      from that have "i = pos \<or> (pos + 1 \<le> i \<and> i < p1) \<or> p1 \<le> i" by arith
      then consider "i = pos" | "pos + 1 \<le> i" "i < p1" | "p1 \<le> i" by blast
      then show ?thesis
      proof cases
        case 1
        with here digit sub(2) show ?thesis by blast
      next
        case 2
        with c2 sub(1) show ?thesis by blast
      next
        case 3
        with b that show ?thesis by blast
      qed
    qed
    with a c1 show ?thesis by (simp del: set_simps)
  next
    case star
    from "1.prems" rd star obtain n ap1 where
      va: "va_arg_int ap = Inr (n, ap1)"
      and rs: "reswitch fmt (pos + 1) (process_precision (d\<lparr>precision := n\<rparr>)) ap1
                 = Inr (c, pos', d', ap')"
      by (cases "va_arg_int ap") (auto simp: unf simp del: set_simps)
    from step [OF rs IH(4) [OF star va refl]] star show ?thesis by simp
  next
    case dot
    with "1.prems" rd
    have "reswitch fmt (pos + 1) (if width d <s 0 then d\<lparr>width := 0\<rparr> else d) ap
            = Inr (c, pos', d', ap')"
      by (simp add: unf del: set_simps)
    from step [OF this IH(5) [OF dot]] dot show ?thesis by simp
  next
    case hash
    with "1.prems" rd have "reswitch fmt (pos + 1) (d\<lparr>altflag := 1\<rparr>) ap = Inr (c, pos', d', ap')"
      by (simp add: unf del: set_simps)
    from step [OF this IH(6) [OF hash]] hash show ?thesis by simp
  next
    case ell
    with "1.prems" rd
    have "reswitch fmt (pos + 1) (d\<lparr>lflag := lflag d + 1\<rparr>) ap = Inr (c, pos', d', ap')"
      by (simp add: unf del: set_simps)
    from step [OF this IH(7) [OF ell]] ell show ?thesis by simp
  next
    case conv
    with "1.prems" rd have "c = ch" "pos' = pos + 1"
      by (simp_all add: unf del: set_simps)
    moreover from conv have "ch \<notin> ?M" by auto
    ultimately show ?thesis using here by (auto simp del: set_simps)
  qed
qed

lemma rewind_to:
  assumes "rd fmt p = Inr CHR ''%''"
  shows "p < j \<Longrightarrow> j \<le> length fmt \<Longrightarrow> (\<forall>i. p < i \<and> i < j \<longrightarrow> fmt ! i \<noteq> CHR ''%'') \<Longrightarrow>
         rewind fmt j = Inr (p + 1)"
proof (induction j)
  case 0
  then show ?case by simp
next
  case (Suc j)
  from Suc.prems(2) have rj: "rd fmt j = Inr (fmt ! j)" by (simp add: rd_def)
  show ?case
  proof (cases "j = p")
    case True
    with assms show ?thesis by simp
  next
    case False
    with Suc.prems have pj: "p < j" "fmt ! j \<noteq> CHR ''%''" by simp_all
    from Suc.prems have "rewind fmt j = Inr (p + 1)"
      by (intro Suc.IH pj(1)) simp_all
    with rj pj show ?thesis by simp
  qed
qed

text \<open>One step of the loop of \<^verbatim>\<open>vprintfmt\<close>.\<close>

lemma vprintfmt_loop_literal:
  "rd fmt pos = Inr c \<Longrightarrow> c \<noteq> CHR ''%'' \<Longrightarrow> c \<noteq> NUL \<Longrightarrow>
   vprintfmt_loop h putch fmt pos attri ap putdat =
     vprintfmt_loop h putch fmt (pos + 1) attri ap (putch (uchar_to_int c OR attri) putdat)"
  by (subst vprintfmt_loop.simps) simp

lemma vprintfmt_loop_end:
  "rd fmt pos = Inr NUL \<Longrightarrow> vprintfmt_loop h putch fmt pos attri ap putdat = Inr putdat"
  by (subst vprintfmt_loop.simps) simp

lemma vprintfmt_loop_past_end:
  "rd fmt pos = Inl e \<Longrightarrow> vprintfmt_loop h putch fmt pos attri ap putdat = Inl e"
  by (subst vprintfmt_loop.simps) simp

lemma vprintfmt_loop_conversion:
  "rd fmt pos = Inr CHR ''%'' \<Longrightarrow>
   reswitch fmt (pos + 1) init_directive ap = Inr (c, q, d, ap') \<Longrightarrow> c \<noteq> CHR ''e'' \<Longrightarrow>
   vprintfmt_loop h putch fmt pos attri ap putdat =
     (case conversion putch fmt c d q attri ap' putdat of
        Inl e \<Rightarrow> Inl e
      | Inr (pos', attri', ap'', putdat') \<Rightarrow> vprintfmt_loop h putch fmt pos' attri' ap'' putdat')"
  by (subst vprintfmt_loop.simps) simp

lemma vprintfmt_loop_e:
  "rd fmt pos = Inr CHR ''%'' \<Longrightarrow>
   reswitch fmt (pos + 1) init_directive ap = Inr (CHR ''e'', q, d, AInt err # ap') \<Longrightarrow>
   vprintfmt_loop h putch fmt pos attri ap putdat =
     (case e_lookup h (if err <s 0 then - err else err) of
        Inl e \<Rightarrow> Inl e
      | Inr None \<Rightarrow>
          (case vprintfmt_loop h putch (cstr ''error %d'') 0 0
                  [AInt (if err <s 0 then - err else err)] putdat of
             Inl e \<Rightarrow> Inl e
           | Inr putdat \<Rightarrow> vprintfmt_loop h putch fmt q attri ap' putdat)
      | Inr (Some p) \<Rightarrow>
          (case vprintfmt_loop h putch (cstr ''%s'') 0 0 [AStr (Some p)] putdat of
             Inl e \<Rightarrow> Inl e
           | Inr putdat \<Rightarrow> vprintfmt_loop h putch fmt q attri ap' putdat))"
  by (subst vprintfmt_loop.simps) (simp add: Let_def)

text \<open>A run of literal text: characters that are neither \<^verbatim>\<open>%\<close> nor the terminator.\<close>

lemma vprintfmt_loop_literal_run:
  "(\<forall>i. a \<le> i \<and> i < a + n \<longrightarrow> fmt ! i \<noteq> CHR ''%'' \<and> fmt ! i \<noteq> NUL) \<Longrightarrow> a + n \<le> length fmt \<Longrightarrow>
   vprintfmt_loop h putch fmt a attri ap putdat =
     vprintfmt_loop h putch fmt (a + n) attri ap
       (fold putch (map (\<lambda>x. uchar_to_int x OR attri) (take n (drop a fmt))) putdat)"
proof (induction n arbitrary: a putdat)
  case 0
  then show ?case by simp
next
  case (Suc n)
  from Suc.prems have a: "a < length fmt" "fmt ! a \<noteq> CHR ''%''" "fmt ! a \<noteq> NUL"
    by simp_all
  then have rd: "rd fmt a = Inr (fmt ! a)" by (simp add: rd_def)
  have tk: "take (Suc n) (drop a fmt) = fmt ! a # take n (drop (a + 1) fmt)"
    using a(1) by (simp add: Cons_nth_drop_Suc [symmetric])
  from Suc.prems have "\<forall>i. a + 1 \<le> i \<and> i < a + 1 + n \<longrightarrow> fmt ! i \<noteq> CHR ''%'' \<and> fmt ! i \<noteq> NUL"
    and "a + 1 + n \<le> length fmt"
    by simp_all
  from Suc.IH [OF this]
  have "vprintfmt_loop h putch fmt (a + 1) attri ap (putch (uchar_to_int (fmt ! a) OR attri) putdat) =
      vprintfmt_loop h putch fmt (a + 1 + n) attri ap
        (fold putch (map (\<lambda>x. uchar_to_int x OR attri) (take n (drop (a + 1) fmt)))
           (putch (uchar_to_int (fmt ! a) OR attri) putdat))" .
  with vprintfmt_loop_literal [OF rd a(2,3), of h putch attri ap putdat] show ?case
    by (simp add: tk)
qed

text \<open>
  C9.  A directive starts at the \<^verbatim>\<open>%\<close> at index \<open>p\<close>; its characters up to index
  \<open>q\<close> have been read, the last of them the conversion character \<open>c\<close>, and \<open>c\<close> is
  none of the recognised ones.  Then the \<^verbatim>\<open>default\<close> case emits \<^verbatim>\<open>%\<close> and puts the
  scan position at \<open>p + 1\<close>, and the loop goes on to emit the characters of the
  directive as literal text, each with the current mask: all of them when \<open>c\<close> is
  a character of the format, after which the scan is at \<open>q\<close>; and the ones before
  \<open>c\<close> when \<open>c\<close> is the terminator, where the call returns.
\<close>

theorem vprintfmt_unrecognised:
  assumes "rd fmt p = Inr CHR ''%''"
    and "reswitch fmt (p + 1) init_directive ap = Inr (c, q, d, ap')"
    and "c \<notin> set ''csduopx%BFCe''"
  shows "conversion putch fmt c d q attri ap' putdat =
           Inr (p + 1, attri, ap', putch (0x25 OR attri) putdat)
         \<and> vprintfmt_loop h putch fmt p attri ap putdat =
             (if c = NUL then
                Inr (fold putch
                       (map (\<lambda>x. uchar_to_int x OR attri)
                          (CHR ''%'' # take (q - 1 - (p + 1)) (drop (p + 1) fmt)))
                       putdat)
              else
                vprintfmt_loop h putch fmt q attri ap'
                  (fold putch
                     (map (\<lambda>x. uchar_to_int x OR attri)
                        (CHR ''%'' # take (q - (p + 1)) (drop (p + 1) fmt)))
                     putdat))"
proof -
  let ?M = "set ''-0123456789*.#l''"
  from reswitch_consumed [OF assms(2)]
  have q: "p + 1 < q" "q \<le> length fmt" and cq: "fmt ! (q - 1) = c"
    and mods: "\<forall>i. p + 1 \<le> i \<and> i < q - 1 \<longrightarrow> fmt ! i \<in> ?M"
    by blast+
  have M: "x \<noteq> CHR ''%'' \<and> x \<noteq> NUL" if "x \<in> ?M" for x
    using that by auto
  from mods M have nm: "\<forall>i. p + 1 \<le> i \<and> i < q - 1 \<longrightarrow> fmt ! i \<noteq> CHR ''%'' \<and> fmt ! i \<noteq> NUL"
    by blast
  from assms(3) have c: "c \<notin> set ''csduopx%BFC''" "c \<noteq> CHR ''e''" "c \<noteq> CHR ''%''"
    by auto
  have "rewind fmt (q - 1) = Inr (p + 1)"
  proof (rule rewind_to [OF assms(1)])
    show "p < q - 1" "q - 1 \<le> length fmt" using q by simp_all
    show "\<forall>i. p < i \<and> i < q - 1 \<longrightarrow> fmt ! i \<noteq> CHR ''%''"
      using nm by simp
  qed
  then have conv: "conversion putch fmt c d q attri ap' putdat =
      Inr (p + 1, attri, ap', putch (0x25 OR attri) putdat)"
    by (simp add: conversion_default [OF c(1)])
  with vprintfmt_loop_conversion [OF assms(1,2) c(2), of h putch attri putdat]
  have start: "vprintfmt_loop h putch fmt p attri ap putdat =
      vprintfmt_loop h putch fmt (p + 1) attri ap' (putch (0x25 OR attri) putdat)"
    by simp
  have pc: "uchar_to_int CHR ''%'' = 0x25" by (simp add: uchar_to_int_def)
  have loop: "vprintfmt_loop h putch fmt p attri ap putdat =
      (if c = NUL then
         Inr (fold putch
                (map (\<lambda>x. uchar_to_int x OR attri)
                   (CHR ''%'' # take (q - 1 - (p + 1)) (drop (p + 1) fmt)))
                putdat)
       else
         vprintfmt_loop h putch fmt q attri ap'
           (fold putch
              (map (\<lambda>x. uchar_to_int x OR attri)
                 (CHR ''%'' # take (q - (p + 1)) (drop (p + 1) fmt)))
              putdat))"
  proof -
    from q obtain n where n: "q - 1 = p + 1 + n"
      by (metis Suc_eq_plus1 Suc_leI add_diff_cancel_right' le_Suc_ex less_diff_conv)
    then have qn: "q = p + 1 + Suc n" "q - 1 - (p + 1) = n" "q - (p + 1) = Suc n"
      using q by simp_all
    from nm have nm': "\<forall>i. p + 1 \<le> i \<and> i < p + 1 + n \<longrightarrow> fmt ! i \<noteq> CHR ''%'' \<and> fmt ! i \<noteq> NUL"
      unfolding n .
    from q(2) have len: "p + 1 + n \<le> length fmt" "p + 1 + Suc n \<le> length fmt"
      unfolding qn(1) by simp_all
    from cq have cn: "fmt ! (p + 1 + n) = c" unfolding n .
    show ?thesis
    proof (cases "c = NUL")
      case True
      from vprintfmt_loop_literal_run [OF nm' len(1)]
      have "vprintfmt_loop h putch fmt (p + 1) attri ap' (putch (0x25 OR attri) putdat) =
          vprintfmt_loop h putch fmt (p + 1 + n) attri ap'
            (fold putch (map (\<lambda>x. uchar_to_int x OR attri) (take n (drop (p + 1) fmt)))
               (putch (0x25 OR attri) putdat))" .
      moreover have "rd fmt (p + 1 + n) = Inr NUL" using len(2) cn True by (simp add: rd_def)
      ultimately show ?thesis
        using start True unfolding qn(2) by (simp add: vprintfmt_loop_end pc)
    next
      case False
      have "\<forall>i. p + 1 \<le> i \<and> i < p + 1 + Suc n \<longrightarrow> fmt ! i \<noteq> CHR ''%'' \<and> fmt ! i \<noteq> NUL"
      proof (intro allI impI)
        fix i assume i: "p + 1 \<le> i \<and> i < p + 1 + Suc n"
        show "fmt ! i \<noteq> CHR ''%'' \<and> fmt ! i \<noteq> NUL"
        proof (cases "i = p + 1 + n")
          case True
          with cn c(3) False show ?thesis by simp
        next
          case False
          with i have "p + 1 \<le> i \<and> i < p + 1 + n" by simp
          with nm' show ?thesis by blast
        qed
      qed
      from vprintfmt_loop_literal_run [OF this len(2)]
      have "vprintfmt_loop h putch fmt (p + 1) attri ap' (putch (0x25 OR attri) putdat) =
          vprintfmt_loop h putch fmt (p + 1 + Suc n) attri ap'
            (fold putch (map (\<lambda>x. uchar_to_int x OR attri) (take (Suc n) (drop (p + 1) fmt)))
               (putch (0x25 OR attri) putdat))" .
      then show ?thesis
        using start False unfolding qn(3) qn(1) [symmetric] by (simp add: pc)
    qed
  qed
  from conv loop show ?thesis by (rule conjI)
qed

text \<open>A run of C9: the format \<^verbatim>\<open>%z\<close> renders the two bytes \<^verbatim>\<open>%\<close> and \<^verbatim>\<open>z\<close>.\<close>

theorem vprintfmt_unrecognised_witness:
  "vprintfmt jos_errno emit [] (cstr ''%z'') [] = Inr [0x25, 0x7a]"
proof -
  have 1: "rd (cstr ''%z'') 0 = Inr CHR ''%''" by (simp add: cstr_def rd_def)
  have 2: "reswitch (cstr ''%z'') (0 + 1) init_directive [] = Inr (CHR ''z'', 2, init_directive, [])"
    by (simp add: reswitch.simps cstr_def rd_Cons_simps rd_Cons_numeral)
  have 3: "CHR ''z'' \<notin> set ''csduopx%BFCe''" by simp
  have "rd (cstr ''%z'') 2 = Inr NUL" by (simp add: cstr_def rd_def)
  then have "vprintfmt_loop jos_errno emit (cstr ''%z'') 2 0 [] [0x25, 0x7a] = Inr [0x25, 0x7a]"
    by (rule vprintfmt_loop_end)
  with vprintfmt_unrecognised [OF 1 2 3, of emit 0 "[]" jos_errno, THEN conjunct2]
  show ?thesis
    by (simp add: vprintfmt_def cstr_def emit_def uchar_to_int_def)
qed

subsection \<open>The sink sees the same characters whatever it does with them\<close>

text \<open>
  The engine never looks at the sink's state: two sinks that keep a relation \<open>R\<close>
  between their states character by character are left in related states, and
  the engine fails with one exactly when it fails with the other.
\<close>

lemma printnum_pad_rel:
  assumes "\<And>c a b. R a b \<Longrightarrow> R (p1 c a) (p2 c b)" and "R a b"
  shows "R (printnum_pad p1 a w pc) (printnum_pad p2 b w pc)"
  using assms
proof (induction p1 a w pc arbitrary: b rule: printnum_pad.induct)
  case (1 putch putdat w pc)
  note step = "1.prems"(1)
  show ?case
  proof (cases "0 <s w - 1")
    case True
    from "1.IH" [OF refl True step step [OF "1.prems"(2)]] True show ?thesis
      by (simp add: printnum_pad.simps [of putch putdat w] printnum_pad.simps [of p2 b w])
  next
    case False
    with "1.prems"(2) show ?thesis
      by (simp add: printnum_pad.simps [of putch putdat w] printnum_pad.simps [of p2 b w])
  qed
qed

lemma printnum_rel:
  assumes "\<And>c a b. R a b \<Longrightarrow> R (p1 c a) (p2 c b)" and "R a b"
  shows "rel_sum (=) R (printnum p1 a num base w pc) (printnum p2 b num base w pc)"
  using assms
proof (induction p1 a num base w pc arbitrary: b rule: printnum.induct)
  case (1 putch putdat num base w pc)
  note step = "1.prems"(1)
  note unf = printnum.simps [of putch putdat num base w pc] printnum.simps [of p2 b num base w pc]
  show ?case
  proof (cases "ucast base \<le> num")
    case True
    show ?thesis
    proof (cases "base = 0 \<or> base = 1")
      case True
      with \<open>ucast base \<le> num\<close> show ?thesis by (auto simp: unf)
    next
      case False
      then have nz: "base \<noteq> 0" "base \<noteq> 1" by simp_all
      from "1.IH" [OF True nz "1.prems"]
      have "rel_sum (=) R (printnum putch putdat (num div ucast base) base (w - 1) pc)
              (printnum p2 b (num div ucast base) base (w - 1) pc)" .
      with True nz show ?thesis
        by (cases "printnum putch putdat (num div ucast base) base (w - 1) pc";
            cases "printnum p2 b (num div ucast base) base (w - 1) pc";
            cases "digit_at (num mod ucast base)")
           (simp_all add: unf step)
    qed
  next
    case False
    from printnum_pad_rel [where R = R and ?p1.0 = putch and ?p2.0 = p2, OF "1.prems"]
    have "R (printnum_pad putch putdat w pc) (printnum_pad p2 b w pc)" .
    with False show ?thesis
      by (cases "digit_at (num mod ucast base)") (simp_all add: unf step)
  qed
qed

lemma pad_loop_rel:
  assumes "\<And>c a b. R a b \<Longrightarrow> R (p1 c a) (p2 c b)" and "R a b"
  shows "rel_prod R (=) (pad_loop p1 a d c) (pad_loop p2 b d c)"
  using assms
proof (induction p1 a d c arbitrary: b rule: pad_loop.induct)
  case (1 putch putdat d c)
  note step = "1.prems"(1)
  show ?case
  proof (cases "0 <s width d")
    case True
    from "1.IH" [OF True step step [OF "1.prems"(2)]] True show ?thesis
      by (simp add: pad_loop.simps [of putch putdat d c] pad_loop.simps [of p2 b d c])
  next
    case False
    with "1.prems"(2) show ?thesis
      by (simp add: pad_loop.simps [of putch putdat d c] pad_loop.simps [of p2 b d c])
  qed
qed

lemma str_loop_rel:
  assumes step: "\<And>c a b. R a b \<Longrightarrow> R (p1 c a) (p2 c b)"
  shows "R a b \<Longrightarrow>
    rel_sum (=) (rel_prod R (=)) (str_loop p1 a p d attri) (str_loop p2 b p d attri)"
proof (induction p arbitrary: a b d)
  case Nil
  show ?case by simp
next
  case (Cons c p)
  let ?ch = "char_to_int c"
  have r1: "R (p1 (0x3f OR attri) a) (p2 (0x3f OR attri) b)"
    and r2: "R (p1 (?ch OR attri) a) (p2 (?ch OR attri) b)"
    using step [OF Cons.prems] by simp_all
  show ?case
    using Cons.prems Cons.IH [OF r1] Cons.IH [OF r2] by (simp add: Let_def)
qed
lemma conv_s_rel:
  assumes step: "\<And>c a b. R a b \<Longrightarrow> R (p1 c a) (p2 c b)" and R: "R a b"
  shows "rel_sum (=) R (conv_s p1 a p0 d attri) (conv_s p2 b p0 d attri)"
proof -
  let ?p = "case p0 of None \<Rightarrow> cstr ''(null)'' | Some p \<Rightarrow> p"
  let ?D = "d\<lparr>width := width d - of_nat (strnlen ?p (unat (precision d)))\<rparr>"
  let ?l1 = "if 0 <s width d \<and> padc d \<noteq> CHR ''-''
             then pad_loop p1 a ?D (char_to_int (padc d) OR attri) else (a, d)"
  let ?l2 = "if 0 <s width d \<and> padc d \<noteq> CHR ''-''
             then pad_loop p2 b ?D (char_to_int (padc d) OR attri) else (b, d)"
  have "rel_prod R (=) ?l1 ?l2"
    using pad_loop_rel [where R = R and ?p1.0 = p1 and ?p2.0 = p2, OF step R] R by simp
  then obtain a1 b1 d1 where l: "?l1 = (a1, d1)" "?l2 = (b1, d1)" and R1: "R a1 b1"
    by (cases ?l1; cases ?l2) auto
  from str_loop_rel [where R = R and ?p1.0 = p1 and ?p2.0 = p2, OF step R1]
  have s: "rel_sum (=) (rel_prod R (=)) (str_loop p1 a1 ?p d1 attri) (str_loop p2 b1 ?p d1 attri)" .
  have c1: "conv_s p1 a p0 d attri =
      (case str_loop p1 a1 ?p d1 attri of
         Inl e \<Rightarrow> Inl e
       | Inr (putdat, d) \<Rightarrow> Inr (fst (pad_loop p1 putdat d (0x20 OR attri))))"
    using l(1) by (simp add: conv_s_def Let_def)
  have c2: "conv_s p2 b p0 d attri =
      (case str_loop p2 b1 ?p d1 attri of
         Inl e \<Rightarrow> Inl e
       | Inr (putdat, d) \<Rightarrow> Inr (fst (pad_loop p2 putdat d (0x20 OR attri))))"
    using l(2) by (simp add: conv_s_def Let_def)
  show ?thesis
  proof (cases "str_loop p1 a1 ?p d1 attri")
    case (Inl e)
    with s show ?thesis unfolding c1 c2 by (cases "str_loop p2 b1 ?p d1 attri") simp_all
  next
    case (Inr r)
    obtain a2 d2 where r: "r = (a2, d2)" by (cases r)
    from s Inr r obtain b2 where r2: "str_loop p2 b1 ?p d1 attri = Inr (b2, d2)" and R2: "R a2 b2"
      by (cases "str_loop p2 b1 ?p d1 attri") auto
    from pad_loop_rel [where R = R and ?p1.0 = p1 and ?p2.0 = p2, OF step R2]
    have "rel_prod R (=) (pad_loop p1 a2 d2 (0x20 OR attri)) (pad_loop p2 b2 d2 (0x20 OR attri))" .
    then have "R (fst (pad_loop p1 a2 d2 (0x20 OR attri))) (fst (pad_loop p2 b2 d2 (0x20 OR attri)))"
      by (cases "pad_loop p1 a2 d2 (0x20 OR attri)"; cases "pad_loop p2 b2 d2 (0x20 OR attri)") simp
    with Inr r r2 show ?thesis unfolding c1 c2 by simp
  qed
qed

abbreviation conv_rel ::
  "('s \<Rightarrow> 't \<Rightarrow> bool) \<Rightarrow> error + (nat \<times> 32 word \<times> arg list \<times> 's) \<Rightarrow>
     error + (nat \<times> 32 word \<times> arg list \<times> 't) \<Rightarrow> bool" where
  "conv_rel R \<equiv> rel_sum (=) (rel_prod (=) (rel_prod (=) (rel_prod (=) R)))"

lemma number_rel:
  "rel_sum (=) R X Y \<Longrightarrow>
   conv_rel R (case X of Inl e \<Rightarrow> Inl e | Inr putdat \<Rightarrow> Inr (pos, attri, ap, putdat))
     (case Y of Inl e \<Rightarrow> Inl e | Inr putdat \<Rightarrow> Inr (pos, attri, ap, putdat))"
  by (cases X; cases Y) simp_all

lemma conversion_rel:
  assumes step: "\<And>c a b. R a b \<Longrightarrow> R (p1 c a) (p2 c b)" and R: "R a b"
  shows "conv_rel R (conversion p1 fmt c d pos attri ap a) (conversion p2 fmt c d pos attri ap b)"
proof (cases "c \<in> set ''csduopx%BFC''")
  case True
  have pn: "rel_sum (=) R (printnum p1 a' num base w pc) (printnum p2 b' num base w pc)"
    if "R a' b'" for a' b' num base w pc
    using step that by (rule printnum_rel)
  have cc: ?thesis if "c = CHR ''c''"
    unfolding that conversion_simps
    by (cases "va_arg_int ap") (auto simp: step R)
  have cs: ?thesis if "c = CHR ''s''"
  proof (cases "va_arg_str ap")
    case (Inl e)
    then show ?thesis unfolding that conversion_simps by simp
  next
    case (Inr r)
    obtain p ap1 where r: "r = (p, ap1)" by (cases r)
    from number_rel [OF conv_s_rel [where R = R and ?p1.0 = p1 and ?p2.0 = p2, OF step R]] Inr r
    show ?thesis unfolding that conversion_simps by simp
  qed
  have cd: ?thesis if "c = CHR ''d''"
  proof (cases "getint ap (lflag d)")
    case (Inl e)
    then show ?thesis unfolding that conversion_simps by simp
  next
    case (Inr r)
    obtain num ap1 where r: "r = (num, ap1)" by (cases r)
    from number_rel [OF pn [OF R]] number_rel [OF pn [OF step [OF R]]] Inr r
    show ?thesis unfolding that conversion_simps by simp
  qed
  have cu: ?thesis if "c = CHR ''u''"
  proof (cases "getuint ap (lflag d)")
    case (Inl e)
    then show ?thesis unfolding that conversion_simps by simp
  next
    case (Inr r)
    obtain num ap1 where r: "r = (num, ap1)" by (cases r)
    from number_rel [OF pn [OF R]] Inr r
    show ?thesis unfolding that conversion_simps by simp
  qed
  have co: ?thesis if "c = CHR ''o''"
  proof (cases "getuint ap (lflag d)")
    case (Inl e)
    then show ?thesis unfolding that conversion_simps by simp
  next
    case (Inr r)
    obtain num ap1 where r: "r = (num, ap1)" by (cases r)
    from number_rel [OF pn [OF R]] Inr r
    show ?thesis unfolding that conversion_simps by simp
  qed
  have cx: ?thesis if "c = CHR ''x''"
  proof (cases "getuint ap (lflag d)")
    case (Inl e)
    then show ?thesis unfolding that conversion_simps by simp
  next
    case (Inr r)
    obtain num ap1 where r: "r = (num, ap1)" by (cases r)
    from number_rel [OF pn [OF R]] Inr r
    show ?thesis unfolding that conversion_simps by simp
  qed
  have cp: ?thesis if "c = CHR ''p''"
  proof (cases "va_arg_ptr ap")
    case (Inl e)
    then show ?thesis unfolding that conversion_simps by simp
  next
    case (Inr r)
    obtain v ap1 where r: "r = (v, ap1)" by (cases r)
    from number_rel [OF pn [OF step [OF step [OF R]]]] Inr r
    show ?thesis unfolding that conversion_simps by simp
  qed
  have cpc: ?thesis if "c = CHR ''%''"
    unfolding that conversion_simps by (simp add: step R)
  have cB: ?thesis if "c = CHR ''B''"
    unfolding that conversion_simps using R
    by (cases "rd fmt pos"; cases "rd fmt (pos + 1)") simp_all
  have cF: ?thesis if "c = CHR ''F''"
    unfolding that conversion_simps using R
    by (cases "rd fmt pos"; cases "rd fmt (pos + 1)") simp_all
  have cC: ?thesis if "c = CHR ''C''"
    unfolding that conversion_simps using R
    by (cases "rd fmt pos") simp_all
  from True have "c = CHR ''c'' \<or> c = CHR ''s'' \<or> c = CHR ''d'' \<or> c = CHR ''u''
      \<or> c = CHR ''o'' \<or> c = CHR ''p'' \<or> c = CHR ''x'' \<or> c = CHR ''%'' \<or> c = CHR ''B''
      \<or> c = CHR ''F'' \<or> c = CHR ''C''"
    by simp
  then show ?thesis
    using cc cs cd cu co cp cx cpc cB cF cC by (elim disjE) blast+
next
  case False
  show ?thesis
    unfolding conversion_default [OF False]
    by (cases "rewind fmt (pos - 1)") (simp_all add: step R)
qed

lemma vprintfmt_loop_reswitch_fail:
  "rd fmt pos = Inr CHR ''%'' \<Longrightarrow> reswitch fmt (pos + 1) init_directive ap = Inl e \<Longrightarrow>
   vprintfmt_loop h putch fmt pos attri ap putdat = Inl e"
  by (subst vprintfmt_loop.simps) simp

lemma vprintfmt_loop_e_no_arg:
  "rd fmt pos = Inr CHR ''%'' \<Longrightarrow>
   reswitch fmt (pos + 1) init_directive ap = Inr (CHR ''e'', q, d, ap') \<Longrightarrow>
   va_arg_int ap' = Inl e \<Longrightarrow>
   vprintfmt_loop h putch fmt pos attri ap putdat = Inl e"
  by (subst vprintfmt_loop.simps) simp

lemma va_arg_int_Inr: "va_arg_int ap = Inr (v, ap') \<Longrightarrow> ap = AInt v # ap'"
  by (erule va_arg_int.elims) simp_all

lemma vprintfmt_loop_rel:
  assumes "\<And>c a b. R a b \<Longrightarrow> R (p1 c a) (p2 c b)" and "R a b"
  shows "rel_sum (=) R (vprintfmt_loop h p1 fmt pos attri ap a)
           (vprintfmt_loop h p2 fmt pos attri ap b)"
  using assms
proof (induction h p1 fmt pos attri ap a arbitrary: b rule: vprintfmt_loop.induct)
  case (1 h putch fmt pos attri ap putdat)
  note step = "1.prems"(1) and R = "1.prems"(2)
  show ?case
  proof (cases "rd fmt pos")
    case (Inl e)
    then show ?thesis by (simp add: vprintfmt_loop_past_end)
  next
    case (Inr c)
    show ?thesis
    proof (cases "c = CHR ''%''")
      case False
      show ?thesis
      proof (cases "c = NUL")
        case True
        with Inr R show ?thesis by (simp add: vprintfmt_loop_end)
      next
        case nz: False
        from "1.IH"(1) [OF Inr False nz step step [OF R]]
        show ?thesis by (simp add: vprintfmt_loop_literal [OF Inr False nz])
      qed
    next
      case True
      with Inr have rd: "rd fmt pos = Inr CHR ''%''" by simp
      have np: "\<not> c \<noteq> CHR ''%''" using True by simp
      show ?thesis
      proof (cases "reswitch fmt (pos + 1) init_directive ap")
        case (Inl e)
        then show ?thesis by (simp add: vprintfmt_loop_reswitch_fail [OF rd])
      next
        case rs: (Inr r)
        obtain x q d ap1 where r: "r = (x, q, d, ap1)" by (cases r)
        note rs' = rs [unfolded r]
        show ?thesis
        proof (cases "x = CHR ''e''")
          case e: True
          show ?thesis
          proof (cases "va_arg_int ap1")
            case (Inl e1)
            with rs' e show ?thesis by (simp add: vprintfmt_loop_e_no_arg [OF rd])
          next
            case va: (Inr r1)
            obtain err0 ap2 where r1: "r1 = (err0, ap2)" by (cases r1)
            note va' = va [unfolded r1]
            let ?err = "if err0 <s 0 then - err0 else err0"
            from va_arg_int_Inr [OF va'] rs' e
            have rs2: "reswitch fmt (pos + 1) init_directive ap = Inr (CHR ''e'', q, d, AInt err0 # ap2)"
              by simp
            note unf = vprintfmt_loop_e [OF rd rs2]
            show ?thesis
            proof (cases "e_lookup h ?err")
              case (Inl e2)
              then show ?thesis by (simp add: unf)
            next
              case lk: (Inr r2)
              show ?thesis
              proof (cases r2)
                case None
                from "1.IH"(2) [OF Inr np rs' refl refl refl e va' refl refl lk None step R]
                have n: "rel_sum (=) R
                    (vprintfmt_loop h putch (cstr ''error %d'') 0 0 [AInt ?err] putdat)
                    (vprintfmt_loop h p2 (cstr ''error %d'') 0 0 [AInt ?err] b)"
                  by simp
                show ?thesis
                proof (cases "vprintfmt_loop h putch (cstr ''error %d'') 0 0 [AInt ?err] putdat")
                  case (Inl e3)
                  with n lk None show ?thesis
                    by (cases "vprintfmt_loop h p2 (cstr ''error %d'') 0 0 [AInt ?err] b")
                       (simp_all add: unf)
                next
                  case n1: (Inr a1)
                  with n obtain b1 where
                    n2: "vprintfmt_loop h p2 (cstr ''error %d'') 0 0 [AInt ?err] b = Inr b1"
                    and R1: "R a1 b1"
                    by (cases "vprintfmt_loop h p2 (cstr ''error %d'') 0 0 [AInt ?err] b") auto
                  from "1.IH"(3) [OF Inr np rs' refl refl refl e va' refl refl lk None _ step R1]
                    n1
                  have "rel_sum (=) R (vprintfmt_loop h putch fmt q attri ap2 a1)
                      (vprintfmt_loop h p2 fmt q attri ap2 b1)"
                    by simp
                  with n1 n2 lk None show ?thesis by (simp add: unf)
                qed
              next
                case (Some p)
                from "1.IH"(4) [OF Inr np rs' refl refl refl e va' refl refl lk Some step R]
                have n: "rel_sum (=) R
                    (vprintfmt_loop h putch (cstr ''%s'') 0 0 [AStr (Some p)] putdat)
                    (vprintfmt_loop h p2 (cstr ''%s'') 0 0 [AStr (Some p)] b)"
                  by simp
                show ?thesis
                proof (cases "vprintfmt_loop h putch (cstr ''%s'') 0 0 [AStr (Some p)] putdat")
                  case (Inl e3)
                  with n lk Some show ?thesis
                    by (cases "vprintfmt_loop h p2 (cstr ''%s'') 0 0 [AStr (Some p)] b")
                       (simp_all add: unf)
                next
                  case n1: (Inr a1)
                  with n obtain b1 where
                    n2: "vprintfmt_loop h p2 (cstr ''%s'') 0 0 [AStr (Some p)] b = Inr b1"
                    and R1: "R a1 b1"
                    by (cases "vprintfmt_loop h p2 (cstr ''%s'') 0 0 [AStr (Some p)] b") auto
                  from "1.IH"(5) [OF Inr np rs' refl refl refl e va' refl refl lk Some _ step R1]
                    n1
                  have "rel_sum (=) R (vprintfmt_loop h putch fmt q attri ap2 a1)
                      (vprintfmt_loop h p2 fmt q attri ap2 b1)"
                    by simp
                  with n1 n2 lk Some show ?thesis by (simp add: unf)
                qed
              qed
            qed
          qed
        next
          case ne: False
          note unf = vprintfmt_loop_conversion [OF rd rs' ne]
          have cr: "conv_rel R (conversion putch fmt x d q attri ap1 putdat)
              (conversion p2 fmt x d q attri ap1 b)"
            using step R by (rule conversion_rel)
          show ?thesis
          proof (cases "conversion putch fmt x d q attri ap1 putdat")
            case (Inl e1)
            with cr show ?thesis
              by (cases "conversion p2 fmt x d q attri ap1 b") (simp_all add: unf)
          next
            case c1: (Inr r1)
            obtain q1 at1 ap3 a1 where r1: "r1 = (q1, at1, ap3, a1)" by (cases r1)
            from cr c1 r1 obtain b1 where
              c2: "conversion p2 fmt x d q attri ap1 b = Inr (q1, at1, ap3, b1)" and R1: "R a1 b1"
              by (cases "conversion p2 fmt x d q attri ap1 b") auto
            from "1.IH"(6) [OF Inr np rs' refl refl refl ne c1 [unfolded r1] refl refl refl step R1]
            have "rel_sum (=) R (vprintfmt_loop h putch fmt q1 at1 ap3 a1)
                (vprintfmt_loop h p2 fmt q1 at1 ap3 b1)"
              .
            with c1 r1 c2 show ?thesis by (simp add: unf)
          qed
        qed
      qed
    qed
  qed
qed

text \<open>What any sink is left with is the fold of its \<open>putch\<close> over what \<open>emit\<close> records.\<close>

lemma vprintfmt_loop_fold:
  "vprintfmt_loop h putch fmt pos attri ap putdat =
     (case vprintfmt_loop h emit fmt pos attri ap [] of
        Inl e \<Rightarrow> Inl e
      | Inr out \<Rightarrow> Inr (fold putch out putdat))"
proof -
  let ?R = "\<lambda>out s. s = fold putch out putdat"
  have "rel_sum (=) ?R (vprintfmt_loop h emit fmt pos attri ap [])
      (vprintfmt_loop h putch fmt pos attri ap putdat)"
    by (rule vprintfmt_loop_rel) (simp_all add: emit_def)
  then show ?thesis
    by (cases "vprintfmt_loop h emit fmt pos attri ap []";
        cases "vprintfmt_loop h putch fmt pos attri ap putdat") simp_all
qed

lemma vprintfmt_fold:
  "vprintfmt h putch putdat fmt ap =
     (case vprintfmt h emit [] fmt ap of
        Inl e \<Rightarrow> Inl e
      | Inr out \<Rightarrow> Inr (fold putch out putdat))"
  unfolding vprintfmt_def by (rule vprintfmt_loop_fold)

subsection \<open>The bounded buffer\<close>

text \<open>The bytes of \<open>cs\<close>, stored from address \<open>a\<close> on.\<close>

fun store :: "memory \<Rightarrow> nat \<Rightarrow> 32 word list \<Rightarrow> memory" where
  "store m a [] = m"
| "store m a (c # cs) = store (m(a := char_of (unat c))) (a + 1) cs"

lemma store_apply:
  "store m a cs x = (if a \<le> x \<and> x < a + length cs then char_of (unat (cs ! (x - a))) else m x)"
proof (induction cs arbitrary: m a)
  case Nil
  then show ?case by auto
next
  case (Cons c cs)
  let ?m' = "m(a := char_of (unat c))"
  have IH: "store ?m' (a + 1) cs x =
      (if a + 1 \<le> x \<and> x < a + 1 + length cs then char_of (unat (cs ! (x - (a + 1)))) else ?m' x)"
    by (rule Cons.IH)
  have st: "store m a (c # cs) x = store ?m' (a + 1) cs x" by simp
  show ?case
  proof (cases "x = a")
    case True
    then show ?thesis unfolding st IH by simp
  next
    case False
    show ?thesis
    proof (cases "a + 1 \<le> x \<and> x < a + 1 + length cs")
      case True
      then have "x - a = Suc (x - (a + 1))" by arith
      then have "(c # cs) ! (x - a) = cs ! (x - (a + 1))" by simp
      with True show ?thesis unfolding st IH by simp
    next
      case out: False
      with False have "\<not> (a \<le> x \<and> x < a + length (c # cs))" by auto
      with out False show ?thesis unfolding st IH by auto
    qed
  qed
qed

lemma fold_sprintputch:
  "fold sprintputch out (m, \<lparr>buf = B, ebuf = E, cnt = C\<rparr>) =
     (store m B (take (nat (E - int B)) out),
      \<lparr>buf = B + min (length out) (nat (E - int B)), ebuf = E, cnt = C + of_nat (length out)\<rparr>)"
proof (induction out arbitrary: m B C)
  case Nil
  then show ?case by simp
next
  case (Cons c out)
  show ?case
  proof (cases "int B < E")
    case True
    then have k: "nat (E - int B) = Suc (nat (E - int (B + 1)))" by simp
    from True have "sprintputch c (m, \<lparr>buf = B, ebuf = E, cnt = C\<rparr>) =
        (m(B := char_of (unat c)), \<lparr>buf = B + 1, ebuf = E, cnt = C + 1\<rparr>)"
      by (simp add: sprintputch_def)
    then show ?thesis
      unfolding k by (simp add: Cons.IH fun_upd_def)
  next
    case False
    then have k: "nat (E - int B) = 0" by simp
    from False have "sprintputch c (m, \<lparr>buf = B, ebuf = E, cnt = C\<rparr>) =
        (m, \<lparr>buf = B, ebuf = E, cnt = C + 1\<rparr>)"
      by (simp add: sprintputch_def)
    then show ?thesis
      using Cons.IH [of m B "C + 1"] by (simp add: k)
  qed
qed

lemma vsnprintf_valid:
  assumes "bufp \<noteq> 0" and "\<not> n <s 1"
  shows "vsnprintf h m bufp n fmt ap =
     (case vprintfmt h emit [] fmt ap of
        Inl e \<Rightarrow> Inl e
      | Inr out \<Rightarrow>
          Inr ((store m bufp (take (nat (sint n - 1)) out))
                 (bufp + min (length out) (nat (sint n - 1)) := NUL),
               of_nat (length out)))"
proof (cases "vprintfmt h emit [] fmt ap")
  case (Inl e)
  with assms show ?thesis
    by (simp add: vsnprintf_def vprintfmt_fold [of h sprintputch])
next
  case (Inr out)
  with assms show ?thesis
    by (simp add: vsnprintf_def vprintfmt_fold [of h sprintputch] fold_sprintputch)
qed

text \<open>
  Two \<^verbatim>\<open>%*d\<close> directives whose value is 0: each renders the pad character
  \<open>width - 1\<close> times and the digit \<^verbatim>\<open>0\<close>.
\<close>

lemma vprintfmt_star_d_twice:
  "vprintfmt h emit [] (cstr ''%*d%*d'') [AInt w1, AInt 0, AInt w2, AInt 0] =
     Inr (replicate (nat (sint (w1 - 1))) 0x20 @ [0x30] @
          replicate (nat (sint (w2 - 1))) 0x20 @ [0x30])"
proof -
  let ?fmt = "cstr ''%*d%*d''"
  have r0: "rd ?fmt 0 = Inr CHR ''%''" and r1: "rd ?fmt 1 = Inr CHR ''*''"
    and r2: "rd ?fmt 2 = Inr CHR ''d''" and r3: "rd ?fmt 3 = Inr CHR ''%''"
    and r4: "rd ?fmt 4 = Inr CHR ''*''" and r5: "rd ?fmt 5 = Inr CHR ''d''"
    and r6: "rd ?fmt 6 = Inr NUL"
    by (simp_all add: cstr_def rd_def)
  have pp: "process_precision (init_directive\<lparr>precision := w\<rparr>) = init_directive\<lparr>width := w\<rparr>" for w
    by (simp add: process_precision_def init_directive_def word_sless_alt)
  have n: "(0::nat) + 1 = 1" "(1::nat) + 1 = 2" "(2::nat) + 1 = 3" "(3::nat) + 1 = 4"
    "(4::nat) + 1 = 5" "(5::nat) + 1 = 6"
    by simp_all
  have s1: "reswitch ?fmt (0 + 1) init_directive (AInt w # ap) =
      Inr (CHR ''d'', 3, init_directive\<lparr>width := w\<rparr>, ap)" for w ap
  proof -
    have a: "reswitch ?fmt 1 init_directive (AInt w # ap) =
        reswitch ?fmt (1 + 1) (process_precision (init_directive\<lparr>precision := w\<rparr>)) ap"
      using r1 by (rule reswitch_star)
    have b: "reswitch ?fmt 2 (init_directive\<lparr>width := w\<rparr>) ap =
        Inr (CHR ''d'', 2 + 1, init_directive\<lparr>width := w\<rparr>, ap)"
      using r2 by (rule reswitch_conv) simp
    from a [unfolded n pp] b [unfolded n] show ?thesis unfolding n by (rule trans)
  qed
  have s2: "reswitch ?fmt (3 + 1) init_directive (AInt w # ap) =
      Inr (CHR ''d'', 6, init_directive\<lparr>width := w\<rparr>, ap)" for w ap
  proof -
    have a: "reswitch ?fmt 4 init_directive (AInt w # ap) =
        reswitch ?fmt (4 + 1) (process_precision (init_directive\<lparr>precision := w\<rparr>)) ap"
      using r4 by (rule reswitch_star)
    have b: "reswitch ?fmt 5 (init_directive\<lparr>width := w\<rparr>) ap =
        Inr (CHR ''d'', 5 + 1, init_directive\<lparr>width := w\<rparr>, ap)"
      using r5 by (rule reswitch_conv) simp
    from a [unfolded n pp] b [unfolded n] show ?thesis unfolding n by (rule trans)
  qed
  have pn: "printnum emit out 0 10 w 0x20 =
      Inr (out @ replicate (nat (sint (w - 1))) 0x20 @ [0x30])" for out w
  proof -
    have "printnum emit out 0 10 w 0x20 =
      Inr (fold emit
            (replicate (nat (sint (w - of_nat (digitCount (unat (0 :: 64 word)) (unat (10 :: 32 word)))))) 0x20 @
             map (\<lambda>d. digit_char d OR (0x20 AND 0xff00))
               (base_digits (unat (10 :: 32 word)) (unat (0 :: 64 word))))
            out)"
      by (rule printnum_fold) simp_all
    then show ?thesis
      unfolding fold_emit
      by (simp add: digitCount_def base_digits_small digit_char_def del: replicate_append_same)
  qed
  have c: "conversion emit ?fmt CHR ''d'' (init_directive\<lparr>width := w\<rparr>) q 0 (AInt 0 # ap) out =
      Inr (q, 0, ap, out @ replicate (nat (sint (w - 1))) 0x20 @ [0x30])" for q ap out w
    by (simp add: conversion_simps getint_def init_directive_def char_to_int_def pn
        word_sless_alt word_sle_eq del: replicate_append_same)
  have e: "vprintfmt_loop h emit ?fmt 6 0 [] out = Inr out" for out
    using r6 by (rule vprintfmt_loop_end)
  show ?thesis
    unfolding vprintfmt_def
    by (simp add: vprintfmt_loop_conversion [OF r0 s1] vprintfmt_loop_conversion [OF r3 s2] c e
        del: replicate_append_same)
qed

text \<open>
  C5 (amended).  \<^verbatim>\<open>vsnprintf\<close> with a buffer that is not null and a capacity
  \<open>n \<ge> 1\<close>, where \<open>out\<close> is what the format produces in a sink that keeps
  everything: the sink \<open>sprintputch\<close> is run on the characters of \<open>out\<close> in
  order; it increments \<open>cnt\<close> for every character and stores the character,
  advancing \<open>buf\<close>, only while \<open>buf < ebuf = buffer + n - 1\<close>; so the buffer holds
  the first \<open>min (length out) (n - 1)\<close> characters of \<open>out\<close>, one zero byte is
  written behind them, no other byte changes, and the value returned is
  \<open>length out\<close> as a 32-bit \<^verbatim>\<open>int\<close>: the length itself when that is below \<open>2^31\<close>.
\<close>

theorem vsnprintf_bounded:
  assumes "bufp \<noteq> 0" and "1 \<le>s n"
  shows "vsnprintf h m bufp n fmt ap =
           (case vprintfmt h emit [] fmt ap of
              Inl e \<Rightarrow> Inl e
            | Inr out \<Rightarrow>
                Inr ((store m bufp (take (nat (sint n - 1)) out))
                       (bufp + min (length out) (nat (sint n - 1)) := NUL),
                     of_nat (length out)))
         \<and> vprintfmt h sprintputch (m0, b) fmt ap =
           (case vprintfmt h emit [] fmt ap of
              Inl e \<Rightarrow> Inl e
            | Inr out \<Rightarrow> Inr (fold sprintputch out (m0, b)))
         \<and> sprintputch c (m0, b) =
           (if int (buf b) < ebuf b
            then (m0(buf b := char_of (unat c)), b\<lparr>buf := buf b + 1, cnt := cnt b + 1\<rparr>)
            else (m0, b\<lparr>cnt := cnt b + 1\<rparr>))
         \<and> (\<forall>x. store m0 a cs x =
               (if a \<le> x \<and> x < a + length cs then char_of (unat (cs ! (x - a))) else m0 x))
         \<and> (\<forall>out. vprintfmt h emit [] fmt ap = Inr out \<longrightarrow> length out < 2 ^ 31 \<longrightarrow>
               map_sum id (\<lambda>(m', r). sint r) (vsnprintf h m bufp n fmt ap) = Inr (int (length out)))"
proof -
  from assms(2) have n: "\<not> n <s 1" by (simp add: word_sless_alt word_sle_eq)
  note 1 = vsnprintf_valid [OF assms(1) n, of h m fmt ap]
  have 2: "vprintfmt h sprintputch (m0, b) fmt ap =
           (case vprintfmt h emit [] fmt ap of
              Inl e \<Rightarrow> Inl e
            | Inr out \<Rightarrow> Inr (fold sprintputch out (m0, b)))"
    by (rule vprintfmt_fold)
  have 3: "sprintputch c (m0, b) =
           (if int (buf b) < ebuf b
            then (m0(buf b := char_of (unat c)), b\<lparr>buf := buf b + 1, cnt := cnt b + 1\<rparr>)
            else (m0, b\<lparr>cnt := cnt b + 1\<rparr>))"
    by (simp add: sprintputch_def)
  have 4: "\<forall>x. store m0 a cs x =
               (if a \<le> x \<and> x < a + length cs then char_of (unat (cs ! (x - a))) else m0 x)"
    by (simp add: store_apply)
  have 5: "map_sum id (\<lambda>(m', r). sint r) (vsnprintf h m bufp n fmt ap) = Inr (int (length out))"
    if "vprintfmt h emit [] fmt ap = Inr out" "length out < 2 ^ 31" for out
  proof -
    from that(2) have "sint (of_nat (length out) :: 32 word) = int (length out)"
      by (intro sint32_of_nat) simp
    with that(1) show ?thesis unfolding 1 by simp
  qed
  from 1 2 3 4 5 show ?thesis by blast
qed

text \<open>
  A run of C5: \<^verbatim>\<open>%d\<close> of 12345 into a buffer of capacity 3 at address 100 returns 5
  and leaves \<^verbatim>\<open>1\<close>, \<^verbatim>\<open>2\<close> and the zero byte at 100, 101 and 102.
\<close>

theorem vsnprintf_bounded_witness:
  "vsnprintf jos_errno (\<lambda>a. CHR ''#'') 100 3 (cstr ''%d'') [AInt 12345] =
     Inr ((\<lambda>a. CHR ''#'')(100 := CHR ''1'', 101 := CHR ''2'', 102 := NUL), 5)"
proof -
  have out: "vprintfmt jos_errno emit [] (cstr ''%d'') [AInt 12345] = Inr (map of_char ''12345'')"
    by code_simp
  have n: "(100 :: nat) \<noteq> 0" "(1 :: 32 word) \<le>s 3"
    by (simp_all add: word_sle_eq)
  note vsnprintf_bounded [OF n, of jos_errno "\<lambda>a. CHR ''#''" "cstr ''%d''" "[AInt 12345]",
      THEN conjunct1]
  moreover have "char_of (49 :: nat) = CHR ''1''" "char_of (50 :: nat) = CHR ''2''"
    by code_simp+
  ultimately show ?thesis
    unfolding out by simp
qed

text \<open>
  C5 as stated fails where the format produces \<open>2^31\<close> characters or more: two
  directives of width \<open>2^31 - 1\<close> produce \<open>2^32 - 2\<close> characters, and the value
  returned is \<open>-2\<close>.
\<close>

theorem vsnprintf_bounded_counterexample:
  "map_sum id length
     (vprintfmt jos_errno emit [] (cstr ''%*d%*d'')
        [AInt 2147483647, AInt 0, AInt 2147483647, AInt 0]) = Inr 4294967294
   \<and> vsnprintf jos_errno (\<lambda>a. CHR ''#'') 100 3 (cstr ''%*d%*d'')
        [AInt 2147483647, AInt 0, AInt 2147483647, AInt 0] =
     Inr ((\<lambda>a. CHR ''#'')(100 := CHR '' '', 101 := CHR '' '', 102 := NUL), - 2)"
proof -
  note out = vprintfmt_star_d_twice [of jos_errno 2147483647 2147483647]
  have n: "(100 :: nat) \<noteq> 0" "\<not> (3 :: 32 word) <s 1"
    by (simp_all add: word_sless_alt)
  have r: "replicate 2 (32 :: 32 word) = [32, 32]"
    by (simp add: numeral_2_eq_2)
  have ch: "char_of (32 :: nat) = CHR '' ''"
    by code_simp
  show ?thesis
    unfolding vsnprintf_valid [OF n] out
    by (simp add: r ch del: replicate_append_same)
qed

text \<open>
  C8 (amended).  \<^verbatim>\<open>vsnprintf\<close> with a null buffer or a capacity below 1 returns
  \<open>-E_INVAL\<close>, a negative value, and leaves memory as it was.  With a buffer that
  is not null and a capacity of at least 1, where the format produces \<open>out\<close>, it
  returns \<open>length out\<close> as a 32-bit \<^verbatim>\<open>int\<close>; that value is \<open>-E_INVAL\<close> exactly when
  \<open>length out + E_INVAL\<close> is a multiple of \<open>2^32\<close>, so never when the format
  produces fewer than \<open>2^32 - E_INVAL\<close> characters.
\<close>

theorem vsnprintf_invalid:
  assumes "0 < E_INVAL h" and "E_INVAL h < 2 ^ 31"
  shows "(bufp = 0 \<or> n <s 1 \<longrightarrow>
            vsnprintf h m bufp n fmt ap = Inr (m, - of_nat (E_INVAL h))
            \<and> sint (- of_nat (E_INVAL h) :: 32 word) = - int (E_INVAL h))
         \<and> (bufp \<noteq> 0 \<and> 1 \<le>s n \<and> vprintfmt h emit [] fmt ap = Inr out \<longrightarrow>
              (\<exists>m'. vsnprintf h m bufp n fmt ap = Inr (m', of_nat (length out)))
              \<and> ((of_nat (length out) :: 32 word) = - of_nat (E_INVAL h)
                   \<longleftrightarrow> 2 ^ 32 dvd length out + E_INVAL h)
              \<and> (length out + E_INVAL h < 2 ^ 32 \<longrightarrow>
                   (of_nat (length out) :: 32 word) \<noteq> - of_nat (E_INVAL h)))"
proof -
  have 1: "vsnprintf h m bufp n fmt ap = Inr (m, - of_nat (E_INVAL h))" if "bufp = 0 \<or> n <s 1"
    using that by (auto simp: vsnprintf_def)
  have 2: "sint (- of_nat (E_INVAL h) :: 32 word) = - int (E_INVAL h)"
  proof -
    from assms(2) have e: "sint (of_nat (E_INVAL h) :: 32 word) = int (E_INVAL h)"
      by (rule sint32_of_nat)
    have "sint (0 - of_nat (E_INVAL h) :: 32 word) = sint (0 :: 32 word) - sint (of_nat (E_INVAL h) :: 32 word)"
      using assms(2) by (intro sint32_sub) (simp_all add: e)
    then show ?thesis by (simp add: e)
  qed
  have iff: "(of_nat (length out) :: 32 word) = - of_nat (E_INVAL h)
      \<longleftrightarrow> 2 ^ 32 dvd length out + E_INVAL h"
  proof -
    have "(of_nat (length out) :: 32 word) = - of_nat (E_INVAL h)
        \<longleftrightarrow> (of_nat (length out + E_INVAL h) :: 32 word) = 0"
      by (simp add: eq_neg_iff_add_eq_0)
    also have "\<dots> \<longleftrightarrow> 2 ^ 32 dvd length out + E_INVAL h"
      by (simp only: word_of_nat_eq_0_iff) simp
    finally show ?thesis .
  qed
  have 3: "\<exists>m'. vsnprintf h m bufp n fmt ap = Inr (m', of_nat (length out))"
    if "bufp \<noteq> 0" "1 \<le>s n" "vprintfmt h emit [] fmt ap = Inr out"
  proof -
    from that(2) have n: "\<not> n <s 1" by (simp add: word_sless_alt word_sle_eq)
    show ?thesis
      unfolding vsnprintf_valid [OF that(1) n] that(3) by simp
  qed
  have 4: "(of_nat (length out) :: 32 word) \<noteq> - of_nat (E_INVAL h)"
    if "length out + E_INVAL h < 2 ^ 32"
  proof -
    from that assms(1) have "\<not> 2 ^ 32 dvd length out + E_INVAL h"
      by (auto dest: dvd_imp_le)
    with iff show ?thesis by simp
  qed
  from 1 2 3 4 iff show ?thesis by blast
qed

text \<open>
  Runs of C8 with the error codes of JOS, where \<open>E_INVAL\<close> is 3: a null buffer
  and a capacity of 0 give \<open>-3\<close> and an unchanged memory; \<^verbatim>\<open>%d\<close> of 12345 into a
  buffer of capacity 3 gives 5.
\<close>

theorem vsnprintf_invalid_witness:
  "vsnprintf jos_errno (\<lambda>a. CHR ''#'') 0 3 (cstr ''%d'') [AInt 12345] = Inr (\<lambda>a. CHR ''#'', - 3)
   \<and> vsnprintf jos_errno (\<lambda>a. CHR ''#'') 100 0 (cstr ''%d'') [AInt 12345] = Inr (\<lambda>a. CHR ''#'', - 3)
   \<and> (\<exists>m'. vsnprintf jos_errno (\<lambda>a. CHR ''#'') 100 3 (cstr ''%d'') [AInt 12345] = Inr (m', 5))
   \<and> (5 :: 32 word) \<noteq> - 3"
proof -
  have out: "vprintfmt jos_errno emit [] (cstr ''%d'') [AInt 12345] = Inr (map of_char ''12345'')"
    by code_simp
  have e: "0 < E_INVAL jos_errno" "E_INVAL jos_errno < 2 ^ 31" "E_INVAL jos_errno = 3"
    by (simp_all add: jos_errno_def)
  have n: "(0 :: 32 word) <s 1" "(1 :: 32 word) \<le>s 3"
    by (simp_all add: word_sless_alt word_sle_eq)
  note t = vsnprintf_invalid [OF e(1,2), where fmt = "cstr ''%d''" and ap = "[AInt 12345]"
      and m = "\<lambda>a. CHR ''#''" and out = "map of_char ''12345''"]
  from t [of 0 3] have 1:
    "vsnprintf jos_errno (\<lambda>a. CHR ''#'') 0 3 (cstr ''%d'') [AInt 12345] = Inr (\<lambda>a. CHR ''#'', - 3)"
    by (simp add: e(3))
  from t [of 100 0] n(1) have 2:
    "vsnprintf jos_errno (\<lambda>a. CHR ''#'') 100 0 (cstr ''%d'') [AInt 12345] = Inr (\<lambda>a. CHR ''#'', - 3)"
    by (simp add: e(3))
  from t [of 100 3] n(2) out have 3:
    "(\<exists>m'. vsnprintf jos_errno (\<lambda>a. CHR ''#'') 100 3 (cstr ''%d'') [AInt 12345] = Inr (m', 5))
     \<and> (5 :: 32 word) \<noteq> - 3"
    by (simp add: e(3))
  from 1 2 3 show ?thesis by blast
qed

text \<open>
  C8 as stated fails where the format produces \<open>2^32 - 3\<close> characters: the buffer
  is not null and its capacity is 3, and the value returned is \<open>-3\<close>, which is
  \<open>-E_INVAL\<close> with the error codes of JOS; the buffer has been written.
\<close>

theorem vsnprintf_invalid_counterexample:
  "vsnprintf jos_errno (\<lambda>a. CHR ''#'') 100 3 (cstr ''%*d%*d'')
      [AInt 2147483647, AInt 0, AInt 2147483646, AInt 0] =
     Inr ((\<lambda>a. CHR ''#'')(100 := CHR '' '', 101 := CHR '' '', 102 := NUL), - 3)
   \<and> (- of_nat (E_INVAL jos_errno) :: 32 word) = - 3"
proof -
  note out = vprintfmt_star_d_twice [of jos_errno 2147483647 2147483646]
  have n: "(100 :: nat) \<noteq> 0" "\<not> (3 :: 32 word) <s 1"
    by (simp_all add: word_sless_alt)
  have r: "replicate 2 (32 :: 32 word) = [32, 32]"
    by (simp add: numeral_2_eq_2)
  have ch: "char_of (32 :: nat) = CHR '' ''"
    by code_simp
  show ?thesis
    unfolding vsnprintf_valid [OF n] out
    by (simp add: r ch jos_errno_def del: replicate_append_same)
qed

subsection \<open>Strings\<close>

text \<open>
  What \<^verbatim>\<open>case 's'\<close> makes of a byte of the string under the alternate-form flag
  \<open>alt\<close> and the mask \<open>attri\<close>, and how many bytes of a string of length \<open>len\<close> it
  emits under the precision \<open>prec\<close>: all of them when the precision is negative.
\<close>

definition s_char :: "32 word \<Rightarrow> 32 word \<Rightarrow> char \<Rightarrow> 32 word" where
  "s_char alt attri c =
     (if alt \<noteq> 0 \<and> (char_to_int c <s 0x20 \<or> 0x7e <s char_to_int c) then 0x3f OR attri
      else char_to_int c OR attri)"

definition s_limit :: "32 word \<Rightarrow> nat \<Rightarrow> nat" where
  "s_limit prec len = (if prec <s 0 then len else min len (nat (sint prec)))"

lemma char_to_int_eq_0: "char_to_int c = 0 \<longleftrightarrow> c = NUL"
proof
  assume "char_to_int c = 0"
  then have "sint (char_to_int c) = 0" by simp
  then have "(if (of_char c :: nat) < 128 then int (of_char c :: nat) else int (of_char c :: nat) - 256) = 0"
    by (simp only: sint_char_to_int_if)
  moreover have "(of_char c :: nat) < 256" by simp
  ultimately have "(of_char c :: nat) = 0"
    by (cases "(of_char c :: nat) < 128") simp_all
  then show "c = NUL"
    by (simp add: char_eq_nat [of c])
next
  assume "c = NUL"
  then show "char_to_int c = 0" by (simp add: char_to_int_def)
qed

lemma sint32_eq_0: "sint (w :: 32 word) = 0 \<Longrightarrow> w = 0"
  by (simp add: signed_eq_0_iff)

lemma pad_loop_fold:
  "pad_loop putch putdat d c =
     (fold putch (replicate (nat (sint (width d))) c) putdat,
      d\<lparr>width := (if 0 <s width d then 0 else width d)\<rparr>)"
proof (induction putch putdat d c rule: pad_loop.induct)
  case (1 putch putdat d c)
  show ?case
  proof (cases "0 <s width d")
    case True
    then have p: "0 < sint (width d)" by (simp add: word_sless_alt)
    from sint32_pred [OF True] have s: "sint (width d - 1) = sint (width d) - 1" .
    with p have n: "nat (sint (width d)) = Suc (nat (sint (width d - 1)))" by simp
    have z: "width d - 1 = 0" if "\<not> 0 <s width d - 1"
    proof -
      from that s p have "sint (width d - 1) = 0" by (simp add: word_sless_alt)
      then show ?thesis by (rule sint32_eq_0)
    qed
    from True "1.IH" [OF True] show ?thesis
      by (simp add: pad_loop.simps [of putch putdat d] n z)
  next
    case False
    then have "sint (width d) \<le> 0" by (simp add: word_sless_alt)
    with False show ?thesis
      by (simp add: pad_loop.simps [of putch putdat d])
  qed
qed

lemma str_loop_fold:
  assumes "NUL \<notin> set s"
  shows "\<exists>d'. str_loop putch putdat (s @ NUL # rest) d attri =
           Inr (fold putch (map (s_char (altflag d) attri) (take (s_limit (precision d) (length s)) s))
                  putdat, d')
         \<and> width d' = width d - of_nat (s_limit (precision d) (length s))"
  using assms
proof (induction s arbitrary: putdat d)
  case Nil
  have "char_to_int NUL = 0" by (simp add: char_to_int_eq_0)
  then show ?case by (simp add: s_limit_def)
next
  case (Cons c s)
  then have c: "char_to_int c \<noteq> 0" and s: "NUL \<notin> set s"
    by (auto simp: char_to_int_eq_0)
  let ?f = "s_char (altflag d) attri"
  have body: "(if altflag d \<noteq> 0 \<and> (char_to_int c <s 0x20 \<or> 0x7e <s char_to_int c)
               then putch (0x3f OR attri) putdat
               else putch (char_to_int c OR attri) putdat) = putch (?f c) putdat"
    by (simp add: s_char_def)
  show ?case
  proof (cases "precision d <s 0")
    case True
    let ?d1 = "d\<lparr>width := width d - 1\<rparr>"
    have step: "str_loop putch putdat ((c # s) @ NUL # rest) d attri =
        str_loop putch (putch (?f c) putdat) (s @ NUL # rest) ?d1 attri"
      using c True body by (simp add: Let_def)
    from Cons.IH [OF s, of "putch (?f c) putdat" ?d1] True
    obtain d' where d': "str_loop putch (putch (?f c) putdat) (s @ NUL # rest) ?d1 attri =
        Inr (fold putch (map ?f s) (putch (?f c) putdat), d')"
      "width d' = width d - 1 - of_nat (length s)"
      by (auto simp: s_limit_def)
    from True d' show ?thesis
      unfolding step by (simp add: s_limit_def)
  next
    case False
    show ?thesis
    proof (cases "0 \<le>s precision d - 1")
      case more: True
      have pos: "0 <s precision d"
      proof (rule ccontr)
        assume "\<not> 0 <s precision d"
        with False have "sint (precision d) = 0" by (simp add: word_sless_alt)
        then have "precision d = 0" by (rule sint32_eq_0)
        with more show False by (simp add: word_sle_eq)
      qed
      from sint32_pred [OF pos] have sp: "sint (precision d - 1) = sint (precision d) - 1" .
      from pos have p: "0 < sint (precision d)" by (simp add: word_sless_alt)
      let ?d1 = "d\<lparr>precision := precision d - 1, width := width d - 1\<rparr>"
      have n1: "\<not> precision ?d1 <s 0"
        using sp p by (simp add: word_sless_alt)
      have step: "str_loop putch putdat ((c # s) @ NUL # rest) d attri =
          str_loop putch (putch (?f c) putdat) (s @ NUL # rest) ?d1 attri"
        using c False more body by (simp add: Let_def)
      have lim: "s_limit (precision d) (length (c # s)) = Suc (s_limit (precision ?d1) (length s))"
        using False n1 sp p by (simp add: s_limit_def min_def) arith
      from Cons.IH [OF s, of "putch (?f c) putdat" ?d1]
      obtain d' where d': "str_loop putch (putch (?f c) putdat) (s @ NUL # rest) ?d1 attri =
          Inr (fold putch (map ?f (take (s_limit (precision ?d1) (length s)) s))
                 (putch (?f c) putdat), d')"
        "width d' = width d - 1 - of_nat (s_limit (precision ?d1) (length s))"
        by auto
      from d' show ?thesis
        unfolding step lim by simp
    next
      case stop: False
      have z: "precision d = 0"
      proof (rule ccontr)
        assume nz: "precision d \<noteq> 0"
        have "sint (precision d) \<noteq> 0"
          using nz sint32_eq_0 by blast
        with False have pos: "0 <s precision d"
          by (simp add: word_sless_alt)
        from sint32_pred [OF pos] pos stop show False
          by (simp add: word_sless_alt word_sle_eq)
      qed
      have step: "str_loop putch putdat ((c # s) @ NUL # rest) d attri =
          Inr (putdat, d\<lparr>precision := precision d - 1\<rparr>)"
        using c False stop by (simp add: Let_def)
      from z show ?thesis
        unfolding step by (simp add: s_limit_def)
    qed
  qed
qed

lemma strnlen_cstr:
  assumes "NUL \<notin> set s"
  shows "strnlen (s @ NUL # rest) n = min (length s) n"
proof -
  from assms have "takeWhile (\<lambda>c. c \<noteq> NUL) (s @ NUL # rest) = s"
    by (induction s) auto
  then show ?thesis by (simp add: strnlen_def)
qed

text \<open>\<^verbatim>\<open>case 's'\<close> on a string \<open>s\<close> and its terminator, in 32-bit arithmetic.\<close>

lemma conv_s_fold:
  assumes "NUL \<notin> set s"
  shows "conv_s putch putdat (Some (s @ NUL # rest)) d attri =
     Inr (fold putch
            ((if 0 <s width d \<and> padc d \<noteq> CHR ''-''
              then replicate (nat (sint (width d - of_nat (min (length s) (unat (precision d))))))
                     (char_to_int (padc d) OR attri)
              else []) @
             map (s_char (altflag d) attri) (take (s_limit (precision d) (length s)) s) @
             replicate
               (nat (sint ((if 0 <s width d \<and> padc d \<noteq> CHR ''-''
                            then (if 0 <s width d - of_nat (min (length s) (unat (precision d)))
                                  then 0
                                  else width d - of_nat (min (length s) (unat (precision d))))
                            else width d)
                           - of_nat (s_limit (precision d) (length s)))))
               (0x20 OR attri))
            putdat)"
proof -
  let ?p = "s @ NUL # rest"
  let ?k = "s_limit (precision d) (length s)"
  let ?f = "s_char (altflag d) attri"
  let ?wl = "width d - of_nat (min (length s) (unat (precision d)))"
  show ?thesis
  proof (cases "0 <s width d \<and> padc d \<noteq> CHR ''-''")
    case True
    let ?left = "replicate (nat (sint ?wl)) (char_to_int (padc d) OR attri)"
    define d1 where "d1 = d\<lparr>width := (if 0 <s ?wl then 0 else ?wl)\<rparr>"
    have d1: "precision d1 = precision d" "altflag d1 = altflag d"
      "width d1 = (if 0 <s ?wl then 0 else ?wl)"
      by (simp_all add: d1_def)
    have pl: "pad_loop putch putdat (d\<lparr>width := ?wl\<rparr>) (char_to_int (padc d) OR attri) =
        (fold putch ?left putdat, d1)"
      by (simp add: pad_loop_fold d1_def del: fold_replicate)
    from str_loop_fold [OF assms, of putch "fold putch ?left putdat" rest d1 attri]
    obtain d' where d': "str_loop putch (fold putch ?left putdat) ?p d1 attri =
        Inr (fold putch (map ?f (take ?k s)) (fold putch ?left putdat), d')"
      "width d' = (if 0 <s ?wl then 0 else ?wl) - of_nat ?k"
      unfolding d1 by blast
    have "conv_s putch putdat (Some ?p) d attri =
        Inr (fst (pad_loop putch (fold putch (map ?f (take ?k s)) (fold putch ?left putdat)) d'
                    (0x20 OR attri)))"
      using True
      by (simp add: conv_s_def strnlen_cstr [OF assms] pl d'(1) del: fold_replicate)
    then show ?thesis
      using True by (simp add: pad_loop_fold d'(2) del: fold_replicate)
  next
    case False
    from str_loop_fold [OF assms, of putch putdat rest d attri]
    obtain d' where d': "str_loop putch putdat ?p d attri =
        Inr (fold putch (map ?f (take ?k s)) putdat, d')"
      "width d' = width d - of_nat ?k"
      by auto
    have "conv_s putch putdat (Some ?p) d attri =
        Inr (fst (pad_loop putch (fold putch (map ?f (take ?k s)) putdat) d' (0x20 OR attri)))"
      using False by (auto simp: conv_s_def d'(1))
    then show ?thesis
      using False by (auto simp: pad_loop_fold d'(2) simp del: fold_replicate)
  qed
qed

lemma sint32_uint:
  "sint (w :: 32 word) = (uint w + 2147483648) mod 4294967296 - 2147483648"
  by (simp add: sint_uint signed_take_bit_eq_take_bit_shift take_bit_eq_mod)

lemma sint32_uint_low:
  fixes w :: "32 word"
  assumes "uint w < 2147483648"
  shows "sint w = uint w"
proof -
  have "0 \<le> uint w" by simp
  with assms have "0 \<le> uint w + 2147483648" "uint w + 2147483648 < 4294967296"
    by linarith+
  then have "(uint w + 2147483648) mod 4294967296 = uint w + 2147483648"
    by (rule mod_pos_pos_trivial)
  then show ?thesis unfolding sint32_uint by linarith
qed

lemma sint32_uint_high:
  fixes w :: "32 word"
  assumes "2147483648 \<le> uint w"
  shows "sint w = uint w - 4294967296"
proof -
  have "uint w < 2 ^ LENGTH(32)" by (rule uint_lt2p)
  then have u: "uint w < 4294967296" by simp
  have e: "uint w + 2147483648 = (uint w - 2147483648) + 4294967296" by linarith
  have "(uint w - 2147483648 + 4294967296) mod 4294967296 = (uint w - 2147483648) mod 4294967296"
    by (rule mod_add_self2)
  also have "\<dots> = uint w - 2147483648"
  proof (rule mod_pos_pos_trivial)
    from assms show "0 \<le> uint w - 2147483648" by linarith
    from u show "uint w - 2147483648 < 4294967296" by linarith
  qed
  finally show ?thesis unfolding sint32_uint e by linarith
qed

lemma unat32_of_neg:
  fixes w :: "32 word"
  assumes "w <s 0"
  shows "2147483648 \<le> unat w"
proof (rule ccontr)
  assume "\<not> 2147483648 \<le> unat w"
  then have "unat w < 2147483648" by linarith
  then have "int (unat w) < 2147483648" by linarith
  then have "uint w < 2147483648" by (simp only: of_nat_unat)
  then have "sint w = uint w" by (rule sint32_uint_low)
  moreover have "0 \<le> uint w" by simp
  moreover from assms have "sint w < 0" by (simp only: word_sless_alt sint_0)
  ultimately show False by linarith
qed

lemma unat32_of_nonneg:
  fixes w :: "32 word"
  assumes "\<not> w <s 0"
  shows "unat w = nat (sint w)"
proof -
  from assms have s: "0 \<le> sint w" by (simp only: word_sless_alt sint_0 not_less)
  have "uint w < 2 ^ LENGTH(32)" by (rule uint_lt2p)
  then have u: "uint w < 4294967296" by simp
  have "uint w < 2147483648"
  proof (rule ccontr)
    assume "\<not> uint w < 2147483648"
    then have "2147483648 \<le> uint w" by linarith
    then have "sint w = uint w - 4294967296" by (rule sint32_uint_high)
    with u s show False by linarith
  qed
  then have "sint w = uint w" by (rule sint32_uint_low)
  then show ?thesis by (simp only: unat_eq_nat_uint)
qed

lemma sint32_sub_nat:
  fixes w :: "32 word"
  assumes "n < 2 ^ 31" "- (2 ^ 31) \<le> sint w - int n"
  shows "sint (w - of_nat n) = sint w - int n"
proof -
  from assms(1) have n: "sint (of_nat n :: 32 word) = int n" by (rule sint32_of_nat)
  from sint32_range [of w] assms show ?thesis
    using sint32_sub [of w "of_nat n"] by (simp add: n)
qed

lemma s_char_byte:
  "s_char alt attri c =
     (if alt \<noteq> 0 \<and> ((of_char c :: nat) < 0x20 \<or> 0x7e < (of_char c :: nat)) then 0x3f OR attri
      else char_to_int c OR attri)"
proof -
  have lt: "(of_char c :: nat) < 256" by simp
  have "(char_to_int c <s 0x20 \<or> 0x7e <s char_to_int c)
      \<longleftrightarrow> (of_char c :: nat) < 0x20 \<or> 0x7e < (of_char c :: nat)"
  proof (cases "(of_char c :: nat) < 128")
    case True
    then show ?thesis
      unfolding word_sless_alt sint_char_to_int_if by simp
  next
    case False
    from lt have "int (of_char c :: nat) - 256 < 32" by linarith
    moreover from False have "126 < (of_char c :: nat)" by linarith
    ultimately show ?thesis
      unfolding word_sless_alt sint_char_to_int_if using False by simp
  qed
  then show ?thesis by (simp only: s_char_def)
qed

text \<open>
  C6 (amended).  \<^verbatim>\<open>case 's'\<close> on a string \<open>s\<close> of fewer than \<open>2^30\<close> bytes before
  its terminator, with a width of at least \<open>-2^30\<close>, where \<open>k\<close> is the length of
  \<open>s\<close> when the precision is negative and the smaller of that length and the
  precision otherwise: if the width is positive and the pad character is not
  \<^verbatim>\<open>-\<close>, the pad character is emitted \<open>width - k\<close> times (not at all when that is
  not positive); then the first \<open>k\<close> bytes of \<open>s\<close> are emitted, \<^verbatim>\<open>?\<close> standing for
  every byte outside \<open>0x20..0x7e\<close> when the alternate-form flag is set; then,
  unless the left padding was done, a space is emitted \<open>width - k\<close> times (not at
  all when that is not positive).  Every character carries the mask.  A null
  pointer is treated as the string \<^verbatim>\<open>(null)\<close>.
\<close>

theorem conv_s_output:
  assumes "NUL \<notin> set s" and "length s < 2 ^ 30" and "- (2 ^ 30) \<le> sint (width d)"
  shows "conv_s putch putdat (Some (s @ NUL # rest)) d attri =
           Inr (fold putch
                  ((if 0 < sint (width d) \<and> padc d \<noteq> CHR ''-''
                    then replicate (nat (sint (width d) - int (s_limit (precision d) (length s))))
                           (char_to_int (padc d) OR attri)
                    else []) @
                   map (s_char (altflag d) attri) (take (s_limit (precision d) (length s)) s) @
                   (if 0 < sint (width d) \<and> padc d \<noteq> CHR ''-''
                    then []
                    else replicate (nat (sint (width d) - int (s_limit (precision d) (length s))))
                           (0x20 OR attri)))
                  putdat)
         \<and> conv_s putch putdat None d attri = conv_s putch putdat (Some (cstr ''(null)'')) d attri
         \<and> s_limit (precision d) (length s) =
             (if sint (precision d) < 0 then length s else min (length s) (nat (sint (precision d))))
         \<and> s_char (altflag d) attri c =
             (if altflag d \<noteq> 0 \<and> ((of_char c :: nat) < 0x20 \<or> 0x7e < (of_char c :: nat))
              then 0x3f OR attri
              else char_to_int c OR attri)"
proof -
  let ?k = "s_limit (precision d) (length s)"
  let ?L = "min (length s) (unat (precision d))"
  let ?lp = "0 <s width d \<and> padc d \<noteq> CHR ''-''"
  have k: "?k \<le> length s" by (simp add: s_limit_def)
  with assms(2) have k30: "?k < 2 ^ 30" by linarith
  then have k31: "?k < 2 ^ 31" by simp
  have L: "?L = ?k"
  proof (cases "precision d <s 0")
    case True
    from unat32_of_neg [OF True] assms(2) have "length s \<le> unat (precision d)" by simp
    with True show ?thesis by (simp add: s_limit_def)
  next
    case False
    from unat32_of_nonneg [OF False] False show ?thesis by (simp add: s_limit_def)
  qed
  have sub: "sint (width d - of_nat ?k) = sint (width d) - int ?k"
    using k31
  proof (rule sint32_sub_nat)
    from assms(3) k30 show "- (2 ^ 31) \<le> sint (width d) - int ?k" by simp
  qed
  have lp: "?lp \<longleftrightarrow> 0 < sint (width d) \<and> padc d \<noteq> CHR ''-''"
    by (simp add: word_sless_alt)
  have right: "nat (sint ((if 0 <s width d - of_nat ?k then 0 else width d - of_nat ?k) - of_nat ?k)) = 0"
    if "?lp"
  proof (cases "0 <s width d - of_nat ?k")
    case True
    have "sint ((0 :: 32 word) - of_nat ?k) = sint (0 :: 32 word) - int ?k"
      using k31 by (rule sint32_sub_nat) (use k30 in simp)
    with True show ?thesis by simp
  next
    case False
    then have le: "sint (width d - of_nat ?k) \<le> 0" by (simp add: word_sless_alt)
    from that have "0 < sint (width d)" by (simp add: word_sless_alt)
    with sub k30 have ge: "- (2 ^ 30) < sint (width d - of_nat ?k)" by simp
    have "sint (width d - of_nat ?k - of_nat ?k) = sint (width d - of_nat ?k) - int ?k"
      using k31
    proof (rule sint32_sub_nat)
      from ge k30 show "- (2 ^ 31) \<le> sint (width d - of_nat ?k) - int ?k" by simp
    qed
    with False le show ?thesis by simp
  qed
  have 1: "conv_s putch putdat (Some (s @ NUL # rest)) d attri =
           Inr (fold putch
                  ((if 0 < sint (width d) \<and> padc d \<noteq> CHR ''-''
                    then replicate (nat (sint (width d) - int ?k)) (char_to_int (padc d) OR attri)
                    else []) @
                   map (s_char (altflag d) attri) (take ?k s) @
                   (if 0 < sint (width d) \<and> padc d \<noteq> CHR ''-''
                    then []
                    else replicate (nat (sint (width d) - int ?k)) (0x20 OR attri)))
                  putdat)"
  proof (cases "0 < sint (width d) \<and> padc d \<noteq> CHR ''-''")
    case True
    with lp have lpw: ?lp by blast
    from True have c: "(if 0 < sint (width d) \<and> padc d \<noteq> CHR ''-'' then x else y) = x"
      for x y :: "32 word list"
      by (rule if_P)
    from True have c': "(if 0 < sint (width d) \<and> padc d \<noteq> CHR ''-'' then x else y) = x"
      for x y :: "32 word"
      by (rule if_P)
    show ?thesis
      unfolding conv_s_fold [OF assms(1)] L lp c c' right [OF lpw] sub
      by (simp del: fold_replicate fold_append)
  next
    case False
    from False have c: "(if 0 < sint (width d) \<and> padc d \<noteq> CHR ''-'' then x else y) = y"
      for x y :: "32 word list"
      by (rule if_not_P)
    from False have c': "(if 0 < sint (width d) \<and> padc d \<noteq> CHR ''-'' then x else y) = y"
      for x y :: "32 word"
      by (rule if_not_P)
    show ?thesis
      unfolding conv_s_fold [OF assms(1)] L lp c c' sub
      by (simp del: fold_replicate fold_append)
  qed
  have 2: "conv_s putch putdat None d attri = conv_s putch putdat (Some (cstr ''(null)'')) d attri"
    by (simp add: conv_s_def)
  have 3: "?k = (if sint (precision d) < 0 then length s else min (length s) (nat (sint (precision d))))"
    by (simp add: s_limit_def word_sless_alt)
  note 4 = s_char_byte [of "altflag d" attri c]
  from 1 2 3 4 show ?thesis by blast
qed

text \<open>
  Runs of C6 on the string \<^verbatim>\<open>hello\<close> with the width 6 and the precision 2: padded
  on the left with the pad character \<^verbatim>\<open>0\<close>, and on the right with spaces under
  the pad character \<^verbatim>\<open>-\<close>; and a null pointer under the directive of \<^verbatim>\<open>%s\<close>.
\<close>

theorem conv_s_output_witness:
  "conv_s emit [] (Some (cstr ''hello''))
      \<lparr>padc = CHR ''0'', width = 6, precision = 2, lflag = 0, altflag = 0\<rparr> 0 =
     Inr (map of_char ''0000he'')
   \<and> conv_s emit [] (Some (cstr ''hello''))
      \<lparr>padc = CHR ''-'', width = 6, precision = 2, lflag = 0, altflag = 0\<rparr> 0 =
     Inr (map of_char ''he    '')
   \<and> conv_s emit [] None init_directive 0 = Inr (map of_char ''(null)'')"
proof -
  let ?d0 = "\<lparr>padc = CHR ''0'', width = 6, precision = 2, lflag = 0, altflag = 0\<rparr>"
  let ?d1 = "\<lparr>padc = CHR ''-'', width = 6, precision = 2, lflag = 0, altflag = 0\<rparr>"
  note t = conv_s_output [where putch = emit and putdat = "[]" and rest = "[]" and attri = 0
      and c = NUL]
  have h: "NUL \<notin> set ''hello''" "length ''hello'' < 2 ^ 30"
    "NUL \<notin> set ''(null)''" "length ''(null)'' < 2 ^ 30"
    by simp_all
  have w: "- (2 ^ 30) \<le> sint (width ?d0)" "- (2 ^ 30) \<le> sint (width ?d1)"
    "- (2 ^ 30) \<le> sint (width init_directive)"
    by (simp_all add: init_directive_def)
  have k: "s_limit 2 (Suc (Suc (Suc (Suc (Suc 0))))) = 2" "s_limit (- 1) n = n" for n
    by (simp_all add: s_limit_def word_sless_alt)
  have r: "replicate 4 x = [x, x, x, x]" for x :: "32 word"
    by (simp add: eval_nat_numeral)
  have c: "s_char 0 0 x = char_to_int x" for x
    by (simp add: s_char_def)
  from t [OF h(1,2) w(1), THEN conjunct1]
  have 1: "conv_s emit [] (Some (cstr ''hello'')) ?d0 0 = Inr (map of_char ''0000he'')"
    unfolding fold_emit by (simp add: cstr_def k r c char_to_int_def)
  from t [OF h(1,2) w(2), THEN conjunct1]
  have 2: "conv_s emit [] (Some (cstr ''hello'')) ?d1 0 = Inr (map of_char ''he    '')"
    unfolding fold_emit by (simp add: cstr_def k r c char_to_int_def)
  from t [OF h(3,4) w(3), THEN conjunct1] t [OF h(3,4) w(3), THEN conjunct2, THEN conjunct1]
  have 3: "conv_s emit [] None init_directive 0 = Inr (map of_char ''(null)'')"
    unfolding fold_emit by (simp add: cstr_def init_directive_def k c char_to_int_def)
  from 1 2 3 show ?thesis by blast
qed

lemma vprintfmt_s_examples:
  "vprintfmt jos_errno emit [] (cstr ''%6.2s|%-6.2s|%s|%#s'')
      [AStr (Some (cstr ''hello'')), AStr (Some (cstr ''hello'')), AStr None,
       AStr (Some (cstr [CHR ''a'', CHR 0x07, CHR ''b'']))] =
     Inr (map of_char ''    he|he    |(null)|a?b'')"
  by code_simp

text \<open>
  C6 as stated fails at the width \<open>-2^31\<close>, which \<^verbatim>\<open>%*s\<close> takes from its argument:
  the width is not positive, so there is no width to fill, but \<^verbatim>\<open>width--\<close> wraps
  to \<open>2^31 - 1\<close> behind the one byte of the string, and \<open>2^31 - 1\<close> spaces follow.
\<close>

theorem conv_s_output_counterexample:
  "vprintfmt jos_errno emit [] (cstr ''%*s'') [AInt (- 2147483648), AStr (Some (cstr ''a''))] =
     Inr (0x61 # replicate 2147483647 0x20)
   \<and> nat (sint (- 2147483648 :: 32 word) - int (length ''a'')) = 0"
proof -
  let ?fmt = "cstr ''%*s''"
  let ?d = "init_directive\<lparr>width := - 2147483648\<rparr>"
  let ?ap = "[AStr (Some (cstr ''a''))]"
  have r0: "rd ?fmt 0 = Inr CHR ''%''" and r1: "rd ?fmt 1 = Inr CHR ''*''"
    and r2: "rd ?fmt 2 = Inr CHR ''s''" and r3: "rd ?fmt 3 = Inr NUL"
    by (simp_all add: cstr_def rd_def)
  have pp: "process_precision (init_directive\<lparr>precision := - 2147483648\<rparr>) = ?d"
    by (simp add: process_precision_def init_directive_def word_sless_alt)
  have n: "(0::nat) + 1 = 1" "(1::nat) + 1 = 2" "(2::nat) + 1 = 3"
    by simp_all
  have a: "reswitch ?fmt 1 init_directive (AInt (- 2147483648) # ?ap) =
      reswitch ?fmt (1 + 1) (process_precision (init_directive\<lparr>precision := - 2147483648\<rparr>)) ?ap"
    using r1 by (rule reswitch_star)
  have b: "reswitch ?fmt 2 ?d ?ap = Inr (CHR ''s'', 2 + 1, ?d, ?ap)"
    using r2 by (rule reswitch_conv) simp
  have s: "reswitch ?fmt (0 + 1) init_directive (AInt (- 2147483648) # ?ap) =
      Inr (CHR ''s'', 3, ?d, ?ap)"
    using a [unfolded n pp] b [unfolded n] unfolding n by (rule trans)
  have k: "s_limit (- 1) n = n" for n
    by (simp add: s_limit_def word_sless_alt)
  have "NUL \<notin> set ''a''" by simp
  note conv_s_fold [OF this, of emit "[]" "[]" ?d 0, unfolded fold_emit]
  then have "conv_s emit [] (Some (''a'' @ NUL # [])) ?d 0 = Inr (0x61 # replicate 2147483647 0x20)"
    by (simp add: init_directive_def k s_char_def char_to_int_def word_sless_alt)
  then have c: "conversion emit ?fmt CHR ''s'' ?d 3 0 ?ap [] =
      Inr (3, 0, [], 0x61 # replicate 2147483647 0x20)"
    by (simp add: conversion_simps cstr_def)
  have e: "vprintfmt_loop jos_errno emit ?fmt 3 0 [] out = Inr out" for out
    using r3 by (rule vprintfmt_loop_end)
  have "vprintfmt jos_errno emit [] ?fmt [AInt (- 2147483648), AStr (Some (cstr ''a''))] =
     Inr (0x61 # replicate 2147483647 0x20)"
    unfolding vprintfmt_def
    by (simp add: vprintfmt_loop_conversion [OF r0 s] c e)
  then show ?thesis by simp
qed

end
